theory Spec2Isabelle
  imports Complex_Main
begin

section \<open>Python strings and their primitives\<close>

text \<open>
  A Python \<^verbatim>\<open>str\<close> is a sequence of Unicode code points; \<^verbatim>\<open>len\<close> counts code
  points. A string is therefore modelled as a list of code points (natural numbers),
  so that \<open>length\<close> is Python's \<^verbatim>\<open>len\<close>.
\<close>

type_synonym pstr = "nat list"

text \<open>
  \<^verbatim>\<open>s[i:j]\<close>: a negative index counts from the end, and every index is clipped
  to \<open>[0, len(s)]\<close>; an empty range gives the empty string.
\<close>

definition slice_index :: "nat \<Rightarrow> int \<Rightarrow> nat" where
  "slice_index n i = (if i < 0 then nat (max 0 (i + int n)) else nat (min i (int n)))"

definition py_slice :: "'a list \<Rightarrow> int \<Rightarrow> int \<Rightarrow> 'a list" where
  "py_slice xs i j =
     (let lo = slice_index (length xs) i; hi = slice_index (length xs) j
      in take (hi - lo) (drop lo xs))"

text \<open>
  \<^verbatim>\<open>str.strip()\<close> without arguments removes leading and trailing whitespace, that
  is the code points for which \<^verbatim>\<open>str.isspace\<close> holds.
\<close>

definition is_space :: "nat \<Rightarrow> bool" where
  "is_space c \<longleftrightarrow>
     (0x09 \<le> c \<and> c \<le> 0x0D) \<or> (0x1C \<le> c \<and> c \<le> 0x20) \<or> c = 0x85 \<or> c = 0xA0 \<or>
     c = 0x1680 \<or> (0x2000 \<le> c \<and> c \<le> 0x200A) \<or> c = 0x2028 \<or> c = 0x2029 \<or>
     c = 0x202F \<or> c = 0x205F \<or> c = 0x3000"

definition strip :: "pstr \<Rightarrow> pstr" where
  "strip s = rev (dropWhile is_space (rev (dropWhile is_space s)))"

text \<open>
  \<^verbatim>\<open>s.rfind(sub, start, end)\<close>: the highest index \<open>i\<close> with
  \<open>s[i:i+len(sub)] = sub\<close> inside \<open>s[start:end]\<close>, or \<open>-1\<close>.
\<close>

definition rfind :: "'a list \<Rightarrow> 'a list \<Rightarrow> int \<Rightarrow> int \<Rightarrow> int" where
  "rfind s sub start end =
     (let lo = slice_index (length s) start; hi = slice_index (length s) end;
          cands = filter (\<lambda>i. i + length sub \<le> hi \<and> take (length sub) (drop i s) = sub)
                    [lo ..< Suc hi]
      in if cands = [] then - 1 else int (last cands))"

section \<open>The chunker (app/kb/chunker.py)\<close>

subsection \<open>Policy\<close>

definition CHUNK_SIZE :: int where
  "CHUNK_SIZE = 800"

definition CHUNK_OVERLAP :: int where
  "CHUNK_OVERLAP = 120"

record TextChunker =
  chunk_size :: int
  overlap :: int

text \<open>
  \<^verbatim>\<open>self.chunk_size = chunk_size or settings.CHUNK_SIZE\<close>: Python's \<^verbatim>\<open>or\<close> takes the
  setting when the argument is \<^verbatim>\<open>None\<close> and also when it is \<open>0\<close>.
\<close>

definition py_or :: "int option \<Rightarrow> int \<Rightarrow> int" where
  "py_or x d = (case x of None \<Rightarrow> d | Some v \<Rightarrow> if v = 0 then d else v)"

definition TextChunker_init :: "int option \<Rightarrow> int option \<Rightarrow> TextChunker" where
  "TextChunker_init cs ov =
     \<lparr>chunk_size = py_or cs CHUNK_SIZE, overlap = py_or ov CHUNK_OVERLAP\<rparr>"

subsection \<open>Sentence boundaries\<close>

text \<open>
  The sentence endings, in the order of the source: the full-width full stop,
  exclamation mark and question mark, their ASCII counterparts, and a blank line.
\<close>

definition sentence_endings :: "pstr list" where
  "sentence_endings = [[0x3002], [0xFF01], [0xFF1F], [0x2E], [0x21], [0x3F], [0x0A, 0x0A]]"

definition boundary_step :: "pstr \<Rightarrow> int \<Rightarrow> int \<Rightarrow> int \<Rightarrow> int \<Rightarrow> int \<Rightarrow> pstr \<Rightarrow> int" where
  "boundary_step text start preferred_end search_start search_end best_pos ending =
     (let pos = rfind text ending search_start search_end
      in if pos > start \<and> \<bar>pos - preferred_end\<bar> < \<bar>best_pos - preferred_end\<bar>
         then pos + int (length ending) else best_pos)"

definition find_sentence_boundary :: "pstr \<Rightarrow> int \<Rightarrow> int \<Rightarrow> int" where
  "find_sentence_boundary text start preferred_end =
     (let search_start = max start (preferred_end - 100);
          search_end = min (int (length text)) (preferred_end + 100)
      in foldl (boundary_step text start preferred_end search_start search_end)
           preferred_end sentence_endings)"

subsection \<open>The overlap-aware splitter\<close>

text \<open>
  One iteration of the \<^verbatim>\<open>while\<close> loop of \<^verbatim>\<open>_split_text_with_overlap\<close>, on the
  loop state \<open>(start, chunks)\<close>: \<open>Inl\<close> is the \<^verbatim>\<open>break\<close> with the final list,
  \<open>Inr\<close> the state for the next iteration.
\<close>

definition split_step :: "TextChunker \<Rightarrow> pstr \<Rightarrow> int \<Rightarrow> pstr list \<Rightarrow> pstr list + int \<times> pstr list" where
  "split_step self text start chunks =
     (let end0 = start + chunk_size self;
          end1 = (if end0 < int (length text)
                  then (let sentence_end = find_sentence_boundary text start end0
                        in if sentence_end > start then sentence_end else end0)
                  else end0);
          chunk = strip (py_slice text start end1);
          chunks' = (if chunk \<noteq> [] then chunks @ [chunk] else chunks)
      in if end1 \<ge> int (length text) then Inl chunks'
         else Inr (max (start + 1) (end1 - overlap self), chunks'))"

function split_loop :: "TextChunker \<Rightarrow> pstr \<Rightarrow> int \<Rightarrow> pstr list \<Rightarrow> pstr list" where
  "split_loop self text start chunks =
     (if start < int (length text)
      then (case split_step self text start chunks of
              Inl result \<Rightarrow> result
            | Inr (start', chunks') \<Rightarrow> split_loop self text start' chunks')
      else chunks)"
  by pat_completeness auto
termination
  by (relation "measure (\<lambda>(self, text, start, chunks). nat (int (length text) - start))")
     (auto simp: split_step_def Let_def split: if_splits)

declare split_loop.simps [simp del]

definition split_text_with_overlap :: "TextChunker \<Rightarrow> pstr \<Rightarrow> pstr list" where
  "split_text_with_overlap self text =
     (if int (length text) \<le> chunk_size self then [text] else split_loop self text 0 [])"

text \<open>
  The values the cursor \<open>start\<close> takes, one per iteration of the same loop: the
  length of this list is the number of iterations.
\<close>

function split_starts :: "TextChunker \<Rightarrow> pstr \<Rightarrow> int \<Rightarrow> pstr list \<Rightarrow> int list" where
  "split_starts self text start chunks =
     (if start < int (length text)
      then start # (case split_step self text start chunks of
                      Inl result \<Rightarrow> []
                    | Inr (start', chunks') \<Rightarrow> split_starts self text start' chunks')
      else [])"
  by pat_completeness auto
termination
  by (relation "measure (\<lambda>(self, text, start, chunks). nat (int (length text) - start))")
     (auto simp: split_step_def Let_def split: if_splits)

declare split_starts.simps [simp del]


subsection \<open>Parsed documents and chunks\<close>

datatype py_error = KeyError | IndexError | ValueError | UnboundLocalError

text \<open>\<^verbatim>\<open>d[key]\<close> on a dictionary raises \<^verbatim>\<open>KeyError\<close> when the key is absent.\<close>

definition getitem :: "'a option \<Rightarrow> py_error + 'a" where
  "getitem v = (case v of None \<Rightarrow> Inl KeyError | Some x \<Rightarrow> Inr x)"

text \<open>\<^verbatim>\<open>d.get(key, default)\<close>.\<close>

definition get_default :: "'a option \<Rightarrow> 'a \<Rightarrow> 'a" where
  "get_default v d = (case v of None \<Rightarrow> d | Some x \<Rightarrow> x)"

text \<open>
  A content block of a parsed document is a dictionary; which of the keys are present
  depends on the parser that produced it, so each is optional here.
\<close>

record block =
  b_text :: "pstr option"
  b_section :: "pstr option"
  b_page :: "int option"
  b_slide :: "int option"
  b_paragraph :: "int option"

text \<open>
  The parsed document. The chunker reads its three keys with \<^verbatim>\<open>get\<close> and a
  default (\<open>[]\<close>, \<open>"unknown"\<close>, \<open>""\<close>); an absent key is represented by that default.
\<close>

record parsed_doc =
  content :: "block list"
  doc_type :: string
  raw_text :: pstr

text \<open>The metadata dictionary of a chunk; \<open>no_meta\<close> is the empty dictionary.\<close>

record chunk_meta =
  m_section :: "pstr option"
  m_page :: "int option"
  m_slide :: "int option"
  m_paragraph :: "int option"
  m_chunk_type :: "string option"
  m_part :: "int option"

definition no_meta :: chunk_meta where
  "no_meta = \<lparr>m_section = None, m_page = None, m_slide = None, m_paragraph = None,
              m_chunk_type = None, m_part = None\<rparr>"

record TextChunk =
  index :: int
  ctext :: pstr
  metadata :: chunk_meta
  start_offset :: int
  end_offset :: int

text \<open>
  A \<^verbatim>\<open>for\<close> loop over a list whose body may raise: the state is threaded through
  the iterations and the first error ends the loop.
\<close>

fun for_each :: "('s \<Rightarrow> 'a \<Rightarrow> py_error + 's) \<Rightarrow> 's \<Rightarrow> 'a list \<Rightarrow> py_error + 's" where
  "for_each body s [] = Inr s"
| "for_each body s (x # xs) =
     (case body s x of Inl e \<Rightarrow> Inl e | Inr s' \<Rightarrow> for_each body s' xs)"

text \<open>
  The inner loops \<^verbatim>\<open>for i, chunk_text in enumerate(parts)\<close> of the page, paragraph
  and section strategies: each part is appended with \<open>index = chunk_index\<close> and the
  metadata of its unit plus its ordinal, and \<open>chunk_index\<close> is incremented.
\<close>

definition append_part :: "chunk_meta \<Rightarrow> TextChunk list \<times> int \<Rightarrow> nat \<times> pstr \<Rightarrow> TextChunk list \<times> int" where
  "append_part meta st ip =
     (case st of (chunks, chunk_index) \<Rightarrow> (case ip of (i, chunk_text) \<Rightarrow>
        (chunks @ [\<lparr>index = chunk_index, ctext = chunk_text,
                    metadata = meta\<lparr>m_part := Some (int i + 1)\<rparr>,
                    start_offset = 0, end_offset = int (length chunk_text)\<rparr>],
         chunk_index + 1)))"

subsection \<open>Page-oriented content\<close>

definition pdf_step :: "TextChunker \<Rightarrow> TextChunk list \<times> int \<Rightarrow> block \<Rightarrow> py_error + TextChunk list \<times> int" where
  "pdf_step self st page_info =
     (case st of (chunks, chunk_index) \<Rightarrow>
     (case getitem (b_text page_info) of Inl e \<Rightarrow> Inl e | Inr page_text \<Rightarrow>
     (case getitem (b_page page_info) of Inl e \<Rightarrow> Inl e | Inr page_num \<Rightarrow>
     (case getitem (b_section page_info) of Inl e \<Rightarrow> Inl e | Inr section \<Rightarrow>
        if int (length page_text) \<le> chunk_size self
        then Inr (chunks @ [\<lparr>index = chunk_index, ctext = page_text,
                    metadata = no_meta\<lparr>m_section := Some section, m_page := Some page_num,
                                         m_chunk_type := Some ''page''\<rparr>,
                    start_offset = 0, end_offset = int (length page_text)\<rparr>],
                  chunk_index + 1)
        else Inr (foldl (append_part (no_meta\<lparr>m_section := Some section, m_page := Some page_num,
                                               m_chunk_type := Some ''page_part''\<rparr>))
                    (chunks, chunk_index)
                    (enumerate 0 (split_text_with_overlap self page_text)))))))"

definition chunk_pdf_content :: "TextChunker \<Rightarrow> block list \<Rightarrow> py_error + TextChunk list" where
  "chunk_pdf_content self blocks = map_sum id fst (for_each (pdf_step self) ([], 0) blocks)"

subsection \<open>Paragraph-oriented content\<close>

text \<open>
  The loop state is \<open>(chunks, chunk_index, current_chunk, current_section,
  current_metadata)\<close>. A string is true when it is not empty.
\<close>

definition flush_chunk :: "int \<Rightarrow> pstr \<Rightarrow> chunk_meta \<Rightarrow> TextChunk" where
  "flush_chunk chunk_index current_chunk current_metadata =
     \<lparr>index = chunk_index, ctext = strip current_chunk, metadata = current_metadata,
      start_offset = 0, end_offset = int (length current_chunk)\<rparr>"

definition para_step ::
  "TextChunker \<Rightarrow> TextChunk list \<times> int \<times> pstr \<times> pstr \<times> chunk_meta \<Rightarrow> block \<Rightarrow>
   py_error + TextChunk list \<times> int \<times> pstr \<times> pstr \<times> chunk_meta" where
  "para_step self st para_info =
     (case st of (chunks, chunk_index, current_chunk, current_section, current_metadata) \<Rightarrow>
     (case getitem (b_text para_info) of Inl e \<Rightarrow> Inl e | Inr para_text \<Rightarrow>
      let section = get_default (b_section para_info) [];
          new_section = (section \<noteq> current_section \<and> current_chunk \<noteq> []);
          chunks1 = (if new_section
                     then chunks @ [flush_chunk chunk_index current_chunk current_metadata]
                     else chunks);
          chunk_index1 = (if new_section then chunk_index + 1 else chunk_index);
          current_chunk1 = (if new_section then [] else current_chunk);
          current_metadata1 = no_meta\<lparr>m_section := Some section,
                                m_paragraph := Some (get_default (b_paragraph para_info) 0),
                                m_chunk_type := Some ''paragraph''\<rparr>
      in if int (length (current_chunk1 @ [0x0A] @ para_text)) > chunk_size self
         then
           (let chunks2 = (if current_chunk1 \<noteq> []
                           then chunks1 @ [flush_chunk chunk_index1 current_chunk1 current_metadata1]
                           else chunks1);
                chunk_index2 = (if current_chunk1 \<noteq> [] then chunk_index1 + 1 else chunk_index1)
            in if int (length para_text) > chunk_size self
               then (case foldl (append_part current_metadata1) (chunks2, chunk_index2)
                            (enumerate 0 (split_text_with_overlap self para_text)) of
                       (chunks3, chunk_index3) \<Rightarrow>
                         Inr (chunks3, chunk_index3, [], section, current_metadata1))
               else Inr (chunks2, chunk_index2, para_text, section, current_metadata1))
         else Inr (chunks1, chunk_index1,
                   (if current_chunk1 \<noteq> [] then current_chunk1 @ [0x0A] @ para_text else para_text),
                   section, current_metadata1)))"

definition chunk_paragraph_content :: "TextChunker \<Rightarrow> block list \<Rightarrow> py_error + TextChunk list" where
  "chunk_paragraph_content self blocks =
     (case for_each (para_step self) ([], 0, [], [], no_meta) blocks of
        Inl e \<Rightarrow> Inl e
      | Inr (chunks, chunk_index, current_chunk, current_section, current_metadata) \<Rightarrow>
          Inr (if current_chunk \<noteq> []
               then chunks @ [flush_chunk chunk_index current_chunk current_metadata]
               else chunks))"

subsection \<open>Slide-oriented content\<close>

text \<open>
  The loop runs over \<^verbatim>\<open>enumerate(content)\<close>. A slide that fits is appended with
  \<open>index = i\<close>, the position of the slide; a part of a split slide is appended with
  \<open>index = len(chunks)\<close>.
\<close>

definition append_slide_part :: "pstr \<Rightarrow> int \<Rightarrow> TextChunk list \<Rightarrow> nat \<times> pstr \<Rightarrow> TextChunk list" where
  "append_slide_part section slide_num chunks jp =
     (case jp of (j, chunk_text) \<Rightarrow>
        chunks @ [\<lparr>index = int (length chunks), ctext = chunk_text,
                   metadata = no_meta\<lparr>m_section := Some section, m_slide := Some slide_num,
                                        m_chunk_type := Some ''slide_part'',
                                        m_part := Some (int j + 1)\<rparr>,
                   start_offset = 0, end_offset = int (length chunk_text)\<rparr>])"

definition slide_step :: "TextChunker \<Rightarrow> TextChunk list \<Rightarrow> nat \<times> block \<Rightarrow> py_error + TextChunk list" where
  "slide_step self chunks is =
     (case is of (i, slide_info) \<Rightarrow>
     (case getitem (b_text slide_info) of Inl e \<Rightarrow> Inl e | Inr slide_text \<Rightarrow>
     (case getitem (b_slide slide_info) of Inl e \<Rightarrow> Inl e | Inr slide_num \<Rightarrow>
     (case getitem (b_section slide_info) of Inl e \<Rightarrow> Inl e | Inr section \<Rightarrow>
        if int (length slide_text) \<le> chunk_size self
        then Inr (chunks @ [\<lparr>index = int i, ctext = slide_text,
                    metadata = no_meta\<lparr>m_section := Some section, m_slide := Some slide_num,
                                         m_chunk_type := Some ''slide''\<rparr>,
                    start_offset = 0, end_offset = int (length slide_text)\<rparr>])
        else Inr (foldl (append_slide_part section slide_num) chunks
                    (enumerate 0 (split_text_with_overlap self slide_text)))))))"

definition chunk_slide_content :: "TextChunker \<Rightarrow> block list \<Rightarrow> py_error + TextChunk list" where
  "chunk_slide_content self blocks = for_each (slide_step self) [] (enumerate 0 blocks)"

subsection \<open>Section-oriented content\<close>

definition markdown_step :: "TextChunker \<Rightarrow> TextChunk list \<times> int \<Rightarrow> block \<Rightarrow> py_error + TextChunk list \<times> int" where
  "markdown_step self st section_info =
     (case st of (chunks, chunk_index) \<Rightarrow>
     (case getitem (b_text section_info) of Inl e \<Rightarrow> Inl e | Inr section_text \<Rightarrow>
     (case getitem (b_section section_info) of Inl e \<Rightarrow> Inl e | Inr section_name \<Rightarrow>
        if int (length section_text) \<le> chunk_size self
        then Inr (chunks @ [\<lparr>index = chunk_index, ctext = section_text,
                    metadata = no_meta\<lparr>m_section := Some section_name,
                                         m_chunk_type := Some ''section''\<rparr>,
                    start_offset = 0, end_offset = int (length section_text)\<rparr>],
                  chunk_index + 1)
        else Inr (foldl (append_part (no_meta\<lparr>m_section := Some section_name,
                                               m_chunk_type := Some ''section_part''\<rparr>))
                    (chunks, chunk_index)
                    (enumerate 0 (split_text_with_overlap self section_text))))))"

definition chunk_markdown_content :: "TextChunker \<Rightarrow> block list \<Rightarrow> py_error + TextChunk list" where
  "chunk_markdown_content self blocks =
     map_sum id fst (for_each (markdown_step self) ([], 0) blocks)"

subsection \<open>Raw text\<close>

text \<open>\<^verbatim>\<open>str(n)\<close> of a natural number: its decimal digits.\<close>

fun py_str_nat :: "nat \<Rightarrow> pstr" where
  "py_str_nat n = (if n < 10 then [0x30 + n] else py_str_nat (n div 10) @ [0x30 + n mod 10])"

declare py_str_nat.simps [simp del]

definition raw_chunk :: "nat \<times> pstr \<Rightarrow> TextChunk" where
  "raw_chunk ip =
     (case ip of (i, chunk_text) \<Rightarrow>
        \<lparr>index = int i, ctext = chunk_text,
         metadata = no_meta\<lparr>m_section := Some ([0x6587, 0x672C, 0x5757] @ py_str_nat (i + 1)),
                              m_chunk_type := Some ''raw''\<rparr>,
         start_offset = 0, end_offset = int (length chunk_text)\<rparr>)"

definition chunk_raw_text :: "TextChunker \<Rightarrow> pstr \<Rightarrow> TextChunk list" where
  "chunk_raw_text self tx = map raw_chunk (enumerate 0 (split_text_with_overlap self tx))"

subsection \<open>Dispatch on the document type\<close>

definition chunk_document :: "TextChunker \<Rightarrow> parsed_doc \<Rightarrow> py_error + TextChunk list" where
  "chunk_document self doc =
     (if doc_type doc = ''pdf'' then chunk_pdf_content self (content doc)
      else if doc_type doc \<in> set [''docx'', ''txt''] then chunk_paragraph_content self (content doc)
      else if doc_type doc = ''pptx'' then chunk_slide_content self (content doc)
      else if doc_type doc = ''markdown'' then chunk_markdown_content self (content doc)
      else Inr (chunk_raw_text self (raw_text doc)))"

section \<open>Answer scoring and citations (app/services/rag_service.py)\<close>

subsection \<open>Evidence\<close>

text \<open>
  An element of \<^verbatim>\<open>chunk_details\<close> is a search result extended with the chunk row and
  the document row it names. Of the chunk row the code reads \<^verbatim>\<open>id\<close>,
  \<^verbatim>\<open>meta_json.get("section")\<close> and \<^verbatim>\<open>chunk_text\<close>; of the document row,
  \<^verbatim>\<open>id\<close>. The score is read with \<^verbatim>\<open>detail.get("score", 0)\<close>, so it is optional.
\<close>

record chunk_row =
  chunk_id :: int
  chunk_section :: "pstr option"
  chunk_text :: pstr

record document_row =
  document_id :: int

record detail =
  d_score :: "real option"
  d_chunk :: chunk_row
  d_document :: document_row

record Citation =
  cited_chunk_id :: int
  cited_document_id :: int
  cited_section :: "pstr option"
  snippet :: pstr

subsection \<open>The pattern of a citation\<close>

text \<open>
  \<^verbatim>\<open>re.findall(r'\[(\d+)\]', answer)\<close>. In a Python 3 string pattern \<^verbatim>\<open>\d\<close> matches
  every Unicode decimal digit, and \<^verbatim>\<open>int\<close> reads every such digit by its value. Which
  code points these are is a table of the interpreter's Unicode database, not of this
  repository, so the table is a parameter \<open>dv\<close>: \<open>dv c = Some v\<close> when \<open>c\<close> is a
  decimal digit of value \<open>v\<close>. \<open>ascii_digits\<close> is the part of the table for
  \<^verbatim>\<open>0\<close> to \<^verbatim>\<open>9\<close>. No bracket is a digit, so at an opening bracket the pattern
  matches exactly when the longest run of digits after it is not empty and is followed
  by a closing bracket; the scan goes on after a match, and one code point further
  otherwise.
\<close>

type_synonym digit_table = "nat \<Rightarrow> nat option"

definition ascii_digits :: digit_table where
  "ascii_digits c = (if 0x30 \<le> c \<and> c \<le> 0x39 then Some (c - 0x30) else None)"

definition is_digit :: "digit_table \<Rightarrow> nat \<Rightarrow> bool" where
  "is_digit dv c \<longleftrightarrow> dv c \<noteq> None"

function findall_citations :: "digit_table \<Rightarrow> pstr \<Rightarrow> pstr list" where
  "findall_citations dv [] = []"
| "findall_citations dv (c # cs) =
     (if c = 0x5B \<and> takeWhile (is_digit dv) cs \<noteq> [] \<and> dropWhile (is_digit dv) cs \<noteq> [] \<and>
         hd (dropWhile (is_digit dv) cs) = 0x5D
      then takeWhile (is_digit dv) cs # findall_citations dv (tl (dropWhile (is_digit dv) cs))
      else findall_citations dv cs)"
  by pat_completeness auto
termination
proof (relation "measure (\<lambda>(dv, s). length s)")
  fix dv :: digit_table and c :: nat and cs :: pstr
  assume "c = 0x5B \<and> takeWhile (is_digit dv) cs \<noteq> [] \<and> dropWhile (is_digit dv) cs \<noteq> [] \<and>
         hd (dropWhile (is_digit dv) cs) = 0x5D"
  then have "length (tl (dropWhile (is_digit dv) cs)) < length (dropWhile (is_digit dv) cs)"
    by simp
  also have "\<dots> \<le> length cs" by (rule length_dropWhile_le)
  finally show "((dv, tl (dropWhile (is_digit dv) cs)), (dv, c # cs)) \<in> measure (\<lambda>(dv, s). length s)"
    by simp
qed simp_all

text \<open>
  \<^verbatim>\<open>int(s)\<close> on a string of decimal digits. On the empty string and on a string
  with another code point the model raises \<^verbatim>\<open>ValueError\<close>; the pattern above yields
  neither.
\<close>

definition py_int :: "digit_table \<Rightarrow> pstr \<Rightarrow> py_error + int" where
  "py_int dv s =
     (if s = [] \<or> \<not> list_all (is_digit dv) s then Inl ValueError
      else Inr (foldl (\<lambda>acc c. 10 * acc + int (get_default (dv c) 0)) 0 s))"

text \<open>\<^verbatim>\<open>keyword in answer\<close>: the keyword occurs as a substring.\<close>

primrec py_in :: "pstr \<Rightarrow> pstr \<Rightarrow> bool" where
  "py_in kw [] \<longleftrightarrow> kw = []"
| "py_in kw (c # cs) \<longleftrightarrow> take (length kw) (c # cs) = kw \<or> py_in kw cs"

text \<open>\<^verbatim>\<open>xs[i]\<close> on a list: a negative index counts from the end.\<close>

definition list_getitem :: "'a list \<Rightarrow> int \<Rightarrow> py_error + 'a" where
  "list_getitem xs i =
     (if 0 \<le> i \<and> i < int (length xs) then Inr (xs ! nat i)
      else if i < 0 \<and> - int (length xs) \<le> i then Inr (xs ! nat (i + int (length xs)))
      else Inl IndexError)"

subsection \<open>Confidence\<close>

definition refusal_keywords :: "pstr list" where
  "refusal_keywords =
     [[0x8BC1, 0x636E, 0x4E0D, 0x8DB3], [0x65E0, 0x6CD5, 0x786E, 0x5B9A],
      [0x4E0D, 0x80FD, 0x786E, 0x5B9A], [0x4FE1, 0x606F, 0x4E0D, 0x591F],
      [0x9700, 0x8981, 0x66F4, 0x591A]]"

definition refusal_flag :: "pstr \<Rightarrow> bool" where
  "refusal_flag answer \<longleftrightarrow> list_ex (\<lambda>keyword. py_in keyword answer) refusal_keywords"

definition cited_count :: "digit_table \<Rightarrow> pstr \<Rightarrow> nat" where
  "cited_count dv answer = length (findall_citations dv answer)"

text \<open>
  The arithmetic of the source is in floating point; the model computes with real
  numbers, that is, without rounding.
\<close>

definition calculate_confidence :: "digit_table \<Rightarrow> detail list \<Rightarrow> pstr \<Rightarrow> real" where
  "calculate_confidence dv chunk_details answer =
     (if chunk_details = [] then 0
      else
        let avg_score = sum_list (map (\<lambda>detail. get_default (d_score detail) 0) chunk_details)
                          / real (length chunk_details);
            coverage = min (real (cited_count dv answer) / real (length chunk_details)) 1;
            confidence = 0.4 * avg_score + 0.4 * coverage + 0.2;
            confidence' = (if refusal_flag answer then confidence * 0.5 else confidence)
        in max 0 (min 1 confidence'))"

text \<open>
  The formula as the specification words it, for comparison: the coverage counts the
  distinct numbers cited, not the bracketed references.
\<close>

definition distinct_cited_count :: "digit_table \<Rightarrow> pstr \<Rightarrow> nat" where
  "distinct_cited_count dv answer = length (remdups (map (py_int dv) (findall_citations dv answer)))"

definition spec_confidence :: "digit_table \<Rightarrow> detail list \<Rightarrow> pstr \<Rightarrow> real" where
  "spec_confidence dv chunk_details answer =
     (let avg_retrieval_score = sum_list (map (\<lambda>detail. get_default (d_score detail) 0) chunk_details)
                          / real (length chunk_details);
          citation_coverage = min (real (distinct_cited_count dv answer) / real (length chunk_details)) 1;
          confidence = 0.4 * avg_retrieval_score + 0.4 * citation_coverage + 0.2;
          confidence' = (if refusal_flag answer then confidence / 2 else confidence)
      in max 0 (min 1 confidence'))"

subsection \<open>Citations\<close>

text \<open>
  The body of the loop of \<^verbatim>\<open>_extract_citations\<close> for one matched string: the
  citations it appends. An error of \<^verbatim>\<open>int\<close> or of the indexing is caught and the
  string is skipped.
\<close>

definition snippet_of :: "pstr \<Rightarrow> pstr" where
  "snippet_of t = (if length t > 200 then take 200 t @ [0x2E, 0x2E, 0x2E] else t)"

definition cite :: "digit_table \<Rightarrow> detail list \<Rightarrow> pstr \<Rightarrow> Citation list" where
  "cite dv chunk_details num_str =
     (case py_int dv num_str of
        Inl e \<Rightarrow> []
      | Inr num \<Rightarrow>
          if 1 \<le> num \<and> num \<le> int (length chunk_details)
          then (case list_getitem chunk_details (num - 1) of
                  Inl e \<Rightarrow> []
                | Inr detail \<Rightarrow>
                    [\<lparr>cited_chunk_id = chunk_id (d_chunk detail),
                      cited_document_id = document_id (d_document detail),
                      cited_section = chunk_section (d_chunk detail),
                      snippet = snippet_of (chunk_text (d_chunk detail))\<rparr>])
          else [])"

text \<open>
  The loop runs over \<^verbatim>\<open>set(citation_numbers)\<close>, the distinct matched strings. The
  order in which a Python set is iterated is not specified; \<open>remdups\<close> gives one such
  order, and nothing below depends on the order.
\<close>

definition extract_citations :: "digit_table \<Rightarrow> detail list \<Rightarrow> pstr \<Rightarrow> Citation list" where
  "extract_citations dv chunk_details answer =
     concat (map (cite dv chunk_details) (remdups (findall_citations dv answer)))"

subsection \<open>Follow-up suggestions\<close>

definition generate_followups :: "pstr \<Rightarrow> pstr \<Rightarrow> pstr list" where
  "generate_followups question answer =
     take 3
       ((if py_in [0x4EC0, 0x4E48, 0x662F] question \<or> py_in [0x5B9A, 0x4E49] question
         then [[0x8FD9, 0x4E2A, 0x6982, 0x5FF5, 0x6709, 0x54EA, 0x4E9B, 0x5E94, 0x7528, 0xFF1F],
               [0x76F8, 0x5173, 0x7684, 0x5B9E, 0x9A8C, 0x6709, 0x54EA, 0x4E9B, 0xFF1F]]
         else if py_in [0x5982, 0x4F55] question \<or> py_in [0x600E, 0x6837] question
         then [[0x8FD9, 0x79CD, 0x65B9, 0x6CD5, 0x7684, 0x539F, 0x7406, 0x662F, 0x4EC0, 0x4E48, 0xFF1F],
               [0x6709, 0x4EC0, 0x4E48, 0x6CE8, 0x610F, 0x4E8B, 0x9879, 0xFF1F]]
         else if py_in [0x4E3A, 0x4EC0, 0x4E48] question
         then [[0x8FD9, 0x4E2A, 0x73B0, 0x8C61, 0x7684, 0x5E94, 0x7528, 0x6709, 0x54EA, 0x4E9B, 0xFF1F],
               [0x76F8, 0x5173, 0x7684, 0x7406, 0x8BBA, 0x53D1, 0x5C55, 0x5386, 0x53F2, 0x5982, 0x4F55,
                0xFF1F]]
         else []) @
        (if py_in [0x5B9E, 0x9A8C] answer
         then [[0x8FD9, 0x4E2A, 0x5B9E, 0x9A8C, 0x7684, 0x5177, 0x4F53, 0x6B65, 0x9AA4, 0x662F, 0x4EC0,
                0x4E48, 0xFF1F]]
         else []) @
        (if py_in [0x516C, 0x5F0F] answer \<or> py_in [0x65B9, 0x7A0B] answer
         then [[0x8FD9, 0x4E2A, 0x516C, 0x5F0F, 0x5982, 0x4F55, 0x63A8, 0x5BFC, 0xFF1F]]
         else []) @
        (if py_in [0x5E94, 0x7528] answer
         then [[0x8FD8, 0x6709, 0x54EA, 0x4E9B, 0x5B9E, 0x9645, 0x5E94, 0x7528, 0xFF1F]]
         else []))"

subsection \<open>Answering\<close>

definition CONFIDENCE_THRESHOLD :: real where
  "CONFIDENCE_THRESHOLD = 0.45"

record RAGService =
  confidence_threshold :: real

definition RAGService_init :: RAGService where
  "RAGService_init = \<lparr>confidence_threshold = CONFIDENCE_THRESHOLD\<rparr>"

text \<open>
  A row of the QA log. The database gives a new row its key; in the model the key is
  the number of rows after the insertion.
\<close>

record QALog =
  qa_id :: int
  qa_user_id :: int
  qa_course_id :: int
  qa_question :: pstr
  qa_answer :: pstr
  qa_citations_json :: "Citation list"
  qa_confidence :: real

record qa_response =
  r_qa_id :: "int option"
  r_answer :: pstr
  r_confidence :: real
  r_citations :: "Citation list"
  r_followups :: "pstr list"

datatype rag_error = LLMException pstr

definition create_low_confidence_response ::
  "pstr \<Rightarrow> pstr \<Rightarrow> real \<Rightarrow> Citation list \<Rightarrow> qa_response" where
  "create_low_confidence_response question answer confidence citations =
     \<lparr>r_qa_id = None, r_answer = answer, r_confidence = confidence, r_citations = citations,
      r_followups =
        [[0x9700, 0x8981, 0x67E5, 0x770B, 0x54EA, 0x4E9B, 0x76F8, 0x5173, 0x8D44, 0x6599, 0xFF1F],
         [0x8FD9, 0x4E2A, 0x95EE, 0x9898, 0x7684, 0x5173, 0x952E, 0x6982, 0x5FF5, 0x662F, 0x4EC0,
          0x4E48, 0xFF1F]]\<rparr>"

text \<open>
  \<^verbatim>\<open>_generate_answer\<close>. The generation client is outside the repository: its reply
  is an argument, \<open>Inr\<close> the text of the completion or \<open>Inl\<close> the message of the
  exception it raised. The state is the table of QA logs; the result is the response or
  the exception raised, and the table afterwards.
\<close>

definition generate_answer ::
  "RAGService \<Rightarrow> digit_table \<Rightarrow> QALog list \<Rightarrow> int \<Rightarrow> int \<Rightarrow> pstr \<Rightarrow> pstr + pstr \<Rightarrow>
   detail list \<Rightarrow> (rag_error + qa_response) \<times> QALog list" where
  "generate_answer self dv db uid cid q reply chunk_details =
     (case reply of
        Inl e \<Rightarrow> (Inl (LLMException ([0x7B54, 0x6848, 0x751F, 0x6210, 0x5931, 0x8D25, 0x3A, 0x20] @ e)), db)
      | Inr answer \<Rightarrow>
          let conf = calculate_confidence dv chunk_details answer;
              citations = extract_citations dv chunk_details answer;
              followups = generate_followups q answer
          in if conf < confidence_threshold self
             then (Inr (create_low_confidence_response q answer conf citations), db)
             else
               let qa_log = \<lparr>qa_id = int (length db) + 1, qa_user_id = uid, qa_course_id = cid,
                             qa_question = q, qa_answer = answer, qa_citations_json = citations,
                             qa_confidence = conf\<rparr>
               in (Inr \<lparr>r_qa_id = Some (qa_id qa_log), r_answer = answer, r_confidence = conf,
                        r_citations = citations, r_followups = followups\<rparr>,
                   db @ [qa_log]))"

text \<open>
  \<^verbatim>\<open>_generate_answer_stream\<close>. The streamed reply of the generation client is the list
  of its text deltas and, when the stream raised after them, the message of the
  exception. The generator yields one event per delta and then one last event.
\<close>

datatype stream_event =
  Delta pstr
| Final int real "Citation list"
| Error pstr

definition generate_answer_stream ::
  "RAGService \<Rightarrow> digit_table \<Rightarrow> QALog list \<Rightarrow> int \<Rightarrow> int \<Rightarrow> pstr \<Rightarrow> pstr list \<Rightarrow> pstr option \<Rightarrow>
   detail list \<Rightarrow> stream_event list \<times> QALog list" where
  "generate_answer_stream self dv db uid cid q deltas failure chunk_details =
     (case failure of
        Some e \<Rightarrow> (map Delta deltas @ [Error e], db)
      | None \<Rightarrow>
          let full_answer = concat deltas;
              conf = calculate_confidence dv chunk_details full_answer;
              citations = extract_citations dv chunk_details full_answer;
              qa_log = \<lparr>qa_id = int (length db) + 1, qa_user_id = uid, qa_course_id = cid,
                        qa_question = q, qa_answer = full_answer, qa_citations_json = citations,
                        qa_confidence = conf\<rparr>
          in (map Delta deltas @ [Final (qa_id qa_log) conf citations], db @ [qa_log]))"

section \<open>The vector store adapter (app/kb/vectordb.py)\<close>

text \<open>
  The part of \<^verbatim>\<open>ChromaAdapter.query\<close> that turns the rows the store returns into
  hits. The store returns parallel lists of ids, distances, metadata and documents; a
  row is one position of these lists. The distance is a floating-point number of the
  store; the model computes with real numbers.
\<close>

record store_row =
  row_id :: pstr
  row_distance :: real
  row_metadata :: "(pstr \<times> pstr) list"
  row_document :: pstr

record VectorHit =
  hit_chunk_id :: pstr
  hit_score :: real
  hit_metadata :: "(pstr \<times> pstr) list"
  hit_chunk_text :: pstr

definition hit_of_row :: "store_row \<Rightarrow> VectorHit" where
  "hit_of_row r =
     (let distance = row_distance r;
          score = max 0 (1 - distance)
      in \<lparr>hit_chunk_id = row_id r, hit_score = score, hit_metadata = row_metadata r,
          hit_chunk_text = row_document r\<rparr>)"

definition query_hits :: "store_row list \<Rightarrow> VectorHit list" where
  "query_hits rows = map hit_of_row rows"

section \<open>The ingestion task (app/services/kb_service.py)\<close>

text \<open>
  The background job reads and writes two rows through its own database session: the
  task row of its \<^verbatim>\<open>task_id\<close> and the document row of its \<^verbatim>\<open>document_id\<close>. The
  model keeps the session's view of the two rows (the task row, and of the document row
  its status, each absent when the row does not exist) and the list of the states that
  the commits made durable, oldest first: these are the states a poller can see.
\<close>

record IngestTask =
  status :: string
  progress :: real
  error_message :: "pstr option"

record ingest_db =
  db_task :: "IngestTask option"
  db_document :: "string option"
  db_commits :: "(IngestTask option \<times> string option) list"

definition commit :: "ingest_db \<Rightarrow> ingest_db" where
  "commit db = db\<lparr>db_commits := db_commits db @ [(db_task db, db_document db)]\<rparr>"

text \<open>
  The calls of the \<^verbatim>\<open>try\<close> block that leave the function: each may raise. What the
  parser, the chunker, the embedding client and the stores compute is not part of this
  model; what is modelled is whether each call raises, which is given by the environment
  \<open>fails\<close> (the message of the exception, if the call raises).
\<close>

datatype step =
  QueryTask | CommitProcessing | QueryDocument | ParseFile | SaveParsed | CommitParsed
| ChunkDocument | CommitChunked | GetEmbeddings | CommitEmbedded | PersistChunks | Upsert
| CommitDone

text \<open>
  A local variable of the function when the handler runs: not yet assigned, assigned
  \<^verbatim>\<open>None\<close>, or assigned a row. Reading a local that was never assigned raises
  \<^verbatim>\<open>UnboundLocalError\<close>.
\<close>

datatype local_var = Unbound | BoundNone | BoundRow

datatype task_end = Finished | Uncaught py_error

definition set_progress :: "real \<Rightarrow> ingest_db \<Rightarrow> ingest_db" where
  "set_progress p db = db\<lparr>db_task := map_option (\<lambda>t. t\<lparr>progress := p\<rparr>) (db_task db)\<rparr>"

definition set_failed :: "pstr \<Rightarrow> ingest_db \<Rightarrow> ingest_db" where
  "set_failed e db =
     db\<lparr>db_task := map_option (\<lambda>t. t\<lparr>status := ''failed'', error_message := Some e\<rparr>) (db_task db)\<rparr>"

definition mark_done :: "ingest_db \<Rightarrow> ingest_db" where
  "mark_done db =
     db\<lparr>db_document := map_option (\<lambda>s. ''ready'') (db_document db),
        db_task := map_option (\<lambda>t. t\<lparr>status := ''done'', progress := 1.0\<rparr>) (db_task db)\<rparr>"

text \<open>
  The \<^verbatim>\<open>except Exception as e\<close> block, entered with the message of \<open>e\<close> and the
  state of the locals \<^verbatim>\<open>task\<close> and \<^verbatim>\<open>document\<close>. The commits of the handler itself
  are taken to succeed.
\<close>

definition on_exception :: "pstr \<Rightarrow> local_var \<Rightarrow> local_var \<Rightarrow> ingest_db \<Rightarrow> task_end \<times> ingest_db" where
  "on_exception e task document db =
     (if task = Unbound then (Uncaught UnboundLocalError, db)
      else
        let db1 = (if task = BoundRow then commit (set_failed e db) else db)
        in if document = Unbound then (Uncaught UnboundLocalError, db1)
           else if document = BoundRow
                then (Finished, commit (db1\<lparr>db_document := map_option (\<lambda>s. ''failed'') (db_document db1)\<rparr>))
                else (Finished, db1))"

text \<open>
  The straight-line part of the \<^verbatim>\<open>try\<close> block once the document is loaded. Each
  entry is a call that may raise, with the assignments made before it and its effect
  when it returns.
\<close>

definition pipeline :: "((ingest_db \<Rightarrow> ingest_db) \<times> step \<times> (ingest_db \<Rightarrow> ingest_db)) list" where
  "pipeline =
     [(id, ParseFile, id), (id, SaveParsed, id), (set_progress 0.3, CommitParsed, commit),
      (id, ChunkDocument, id), (set_progress 0.5, CommitChunked, commit),
      (id, GetEmbeddings, id), (set_progress 0.7, CommitEmbedded, commit),
      (id, PersistChunks, id), (id, Upsert, id), (mark_done, CommitDone, commit)]"

fun run_steps ::
  "(step \<Rightarrow> pstr option) \<Rightarrow> ((ingest_db \<Rightarrow> ingest_db) \<times> step \<times> (ingest_db \<Rightarrow> ingest_db)) list \<Rightarrow>
   ingest_db \<Rightarrow> pstr option \<times> ingest_db" where
  "run_steps fails [] db = (None, db)"
| "run_steps fails ((before, s, after) # rest) db =
     (case fails s of
        Some e \<Rightarrow> (Some e, before db)
      | None \<Rightarrow> run_steps fails rest (after (before db)))"

definition document_missing :: pstr where
  "document_missing = [0x6587, 0x6863, 0x4E0D, 0x5B58, 0x5728]"

definition ingest_document_task :: "(step \<Rightarrow> pstr option) \<Rightarrow> ingest_db \<Rightarrow> task_end \<times> ingest_db" where
  "ingest_document_task fails db =
     (case fails QueryTask of
        Some e \<Rightarrow> on_exception e Unbound Unbound db
      | None \<Rightarrow>
         (case db_task db of
            None \<Rightarrow> (Finished, db)
          | Some t \<Rightarrow>
             let db1 = db\<lparr>db_task := Some (t\<lparr>status := ''processing'', progress := 0.1\<rparr>)\<rparr>
             in (case fails CommitProcessing of
                   Some e \<Rightarrow> on_exception e BoundRow Unbound db1
                 | None \<Rightarrow>
                    let db2 = commit db1
                    in (case fails QueryDocument of
                          Some e \<Rightarrow> on_exception e BoundRow Unbound db2
                        | None \<Rightarrow>
                           (case db_document db2 of
                              None \<Rightarrow> on_exception document_missing BoundRow BoundNone db2
                            | Some s \<Rightarrow>
                               (case run_steps fails pipeline db2 of
                                  (Some e, db3) \<Rightarrow> on_exception e BoundRow BoundRow db3
                                | (None, db3) \<Rightarrow> (Finished, db3)))))))"

section \<open>Invariants used in the proofs\<close>

text \<open>Every chunk of the list is at most \<open>chunk_size\<close> long.\<close>

definition bounded :: "TextChunker \<Rightarrow> TextChunk list \<Rightarrow> bool" where
  "bounded self chunks \<longleftrightarrow> (\<forall>t \<in> set (map ctext chunks). int (length t) \<le> chunk_size self)"

text \<open>The same for the state of the paragraph loop, with its running buffer.\<close>

definition para_inv :: "TextChunker \<Rightarrow> TextChunk list \<times> int \<times> pstr \<times> pstr \<times> chunk_meta \<Rightarrow> bool" where
  "para_inv self st \<longleftrightarrow> (case st of (chunks, k, cur, sec, meta) \<Rightarrow>
      bounded self chunks \<and> int (length cur) \<le> chunk_size self)"

text \<open>The indices of the chunks are 0, 1, 2, ... in order.\<close>

definition contiguous :: "TextChunk list \<Rightarrow> bool" where
  "contiguous chunks \<longleftrightarrow> map index chunks = map int [0 ..< length chunks]"

text \<open>The same with the running counter of a strategy, which is the next index.\<close>

definition counted :: "TextChunk list \<times> int \<Rightarrow> bool" where
  "counted st \<longleftrightarrow> contiguous (fst st) \<and> snd st = int (length (fst st))"

text \<open>What the commits of an ingestion run show of the task row, oldest first.\<close>

definition commit_progress :: "ingest_db \<Rightarrow> real list" where
  "commit_progress db = map (\<lambda>c. case fst c of None \<Rightarrow> 0 | Some t \<Rightarrow> progress t) (db_commits db)"

definition commit_status :: "ingest_db \<Rightarrow> string list" where
  "commit_status db = map (\<lambda>c. case fst c of None \<Rightarrow> [] | Some t \<Rightarrow> status t) (db_commits db)"

section \<open>The splitter: sentence boundaries, lengths, progress\<close>

text \<open>
  \<^verbatim>\<open>_find_sentence_boundary\<close> starts from \<open>best_pos = preferred_end\<close> and replaces
  it only by a position strictly nearer to \<open>preferred_end\<close> than \<open>best_pos\<close> is.
  No position is nearer than distance 0, so the function returns \<open>preferred_end\<close>, and
  every cut of the splitter is at \<open>start + chunk_size\<close>.
\<close>

lemma boundary_step_fixed:
  "boundary_step text start e ss se e ending = e"
  by (simp add: boundary_step_def Let_def)

lemma foldl_fixed: "(\<And>x. f a x = a) \<Longrightarrow> foldl f a xs = a"
  by (induction xs) simp_all

lemma find_sentence_boundary_id: "find_sentence_boundary text start e = e"
  by (simp add: find_sentence_boundary_def Let_def foldl_fixed boundary_step_fixed)

lemma split_step_eq:
  "split_step self text start chunks =
     (let end1 = start + chunk_size self;
          chunk = strip (py_slice text start end1);
          chunks' = (if chunk \<noteq> [] then chunks @ [chunk] else chunks)
      in if end1 \<ge> int (length text) then Inl chunks'
         else Inr (max (start + 1) (end1 - overlap self), chunks'))"
  by (simp add: split_step_def Let_def find_sentence_boundary_id)

lemma length_strip: "length (strip s) \<le> length s"
proof -
  have "length (dropWhile is_space (rev (dropWhile is_space s))) \<le> length (rev (dropWhile is_space s))"
    by (rule length_dropWhile_le)
  also have "\<dots> \<le> length s" by (simp add: length_dropWhile_le)
  finally show ?thesis by (simp add: strip_def)
qed

lemma length_py_slice:
  "0 \<le> i \<Longrightarrow> 0 \<le> d \<Longrightarrow> int (length (py_slice xs i (i + d))) \<le> d"
  by (auto simp: py_slice_def slice_index_def Let_def min_def)

lemma split_loop_bounded:
  "0 \<le> start \<Longrightarrow> 0 \<le> chunk_size self \<Longrightarrow>
   \<forall>c \<in> set chunks. int (length c) \<le> chunk_size self \<Longrightarrow>
   \<forall>c \<in> set (split_loop self tx start chunks). int (length c) \<le> chunk_size self"
proof (induction self tx start chunks rule: split_loop.induct)
  case (1 self tx start chunks)
  let ?c = "strip (py_slice tx start (start + chunk_size self))"
  have c: "int (length ?c) \<le> chunk_size self"
    using length_strip [of "py_slice tx start (start + chunk_size self)"]
          length_py_slice [OF "1.prems"(1) "1.prems"(2), of tx] by linarith
  show ?case
  proof (cases "start < int (length tx)")
    case False
    then show ?thesis using "1.prems" by (simp add: split_loop.simps [of self tx start chunks])
  next
    case True
    show ?thesis
    proof (cases "split_step self tx start chunks")
      case (Inl r)
      then have "set r \<subseteq> set chunks \<union> {?c}"
        by (auto simp: split_step_eq Let_def split: if_splits)
      then show ?thesis using True Inl c "1.prems"
        by (auto simp: split_loop.simps [of self tx start chunks])
    next
      case (Inr p)
      obtain s' ch' where p: "p = (s', ch')" by (cases p)
      have step: "split_step self tx start chunks = Inr (s', ch')" using Inr p by simp
      from step have s': "start < s'" and ch': "set ch' \<subseteq> set chunks \<union> {?c}"
        by (auto simp: split_step_eq Let_def split: if_splits)
      have "\<forall>c \<in> set (split_loop self tx s' ch'). int (length c) \<le> chunk_size self"
        using "1.IH" [OF True step refl] s' ch' "1.prems" c by auto
      then show ?thesis using True step
        by (simp add: split_loop.simps [of self tx start chunks])
    qed
  qed
qed

lemma split_parts_bounded:
  "0 \<le> chunk_size self \<Longrightarrow> c \<in> set (split_text_with_overlap self tx) \<Longrightarrow>
   int (length c) \<le> chunk_size self"
  using split_loop_bounded [of 0 self "[]" tx]
  by (auto simp: split_text_with_overlap_def split: if_splits)

section \<open>Chunk lengths\<close>

lemma for_each_invariant:
  assumes "for_each body s xs = Inr s'" and "I s"
    and step: "\<And>s x s'. I s \<Longrightarrow> body s x = Inr s' \<Longrightarrow> I s'"
  shows "I s'"
  using assms(1,2)
proof (induction xs arbitrary: s)
  case Nil
  then show ?case by simp
next
  case (Cons x xs)
  from Cons.prems(1) obtain s1 where b: "body s x = Inr s1" and r: "for_each body s1 xs = Inr s'"
    by (cases "body s x") simp_all
  have "I s1" by (rule step [OF Cons.prems(2) b])
  then show ?case by (rule Cons.IH [OF r])
qed

lemma append_part_pair:
  "append_part meta (chunks, k) (i, t) =
     (chunks @ [\<lparr>index = k, ctext = t, metadata = meta\<lparr>m_part := Some (int i + 1)\<rparr>,
                 start_offset = 0, end_offset = int (length t)\<rparr>], k + 1)"
  by (simp add: append_part_def)

lemma append_slide_part_pair:
  "append_slide_part sec sn chunks (j, t) =
     chunks @ [\<lparr>index = int (length chunks), ctext = t,
                metadata = no_meta\<lparr>m_section := Some sec, m_slide := Some sn,
                                     m_chunk_type := Some ''slide_part'',
                                     m_part := Some (int j + 1)\<rparr>,
                start_offset = 0, end_offset = int (length t)\<rparr>]"
  by (simp add: append_slide_part_def)

lemma append_part_texts:
  "map ctext (fst (foldl (append_part meta) st ips)) = map ctext (fst st) @ map snd ips"
proof (induction ips arbitrary: st)
  case Nil
  show ?case by simp
next
  case (Cons ip ips)
  obtain chunks k where st: "st = (chunks, k)" by (cases st)
  obtain i t where ip: "ip = (i, t)" by (cases ip)
  show ?case by (simp add: Cons.IH st ip append_part_pair)
qed

lemma append_slide_part_texts:
  "map ctext (foldl (append_slide_part sec sn) chunks ips) = map ctext chunks @ map snd ips"
proof (induction ips arbitrary: chunks)
  case Nil
  show ?case by simp
next
  case (Cons ip ips)
  obtain i t where ip: "ip = (i, t)" by (cases ip)
  show ?case by (simp add: Cons.IH ip append_slide_part_pair)
qed

lemma bounded_append:
  "bounded self chunks \<Longrightarrow> map ctext chunks' = map ctext chunks @ ts \<Longrightarrow>
   (\<And>t. t \<in> set ts \<Longrightarrow> int (length t) \<le> chunk_size self) \<Longrightarrow> bounded self chunks'"
  unfolding bounded_def by auto

lemma bounded_parts:
  assumes "0 \<le> chunk_size self" "bounded self chunks"
  shows "bounded self (fst (foldl (append_part meta) (chunks, k)
           (enumerate 0 (split_text_with_overlap self tx))))"
proof (rule bounded_append [OF assms(2)])
  show "map ctext (fst (foldl (append_part meta) (chunks, k)
           (enumerate 0 (split_text_with_overlap self tx)))) =
        map ctext chunks @ split_text_with_overlap self tx"
    by (simp add: append_part_texts)
  show "\<And>t. t \<in> set (split_text_with_overlap self tx) \<Longrightarrow> int (length t) \<le> chunk_size self"
    by (rule split_parts_bounded [OF assms(1)])
qed

lemma bounded_slide_parts:
  assumes "0 \<le> chunk_size self" "bounded self chunks"
  shows "bounded self (foldl (append_slide_part sec sn) chunks
           (enumerate 0 (split_text_with_overlap self tx)))"
proof (rule bounded_append [OF assms(2)])
  show "map ctext (foldl (append_slide_part sec sn) chunks
           (enumerate 0 (split_text_with_overlap self tx))) =
        map ctext chunks @ split_text_with_overlap self tx"
    by (simp add: append_slide_part_texts)
  show "\<And>t. t \<in> set (split_text_with_overlap self tx) \<Longrightarrow> int (length t) \<le> chunk_size self"
    by (rule split_parts_bounded [OF assms(1)])
qed

lemma bounded_snoc:
  "bounded self chunks \<Longrightarrow> int (length (ctext c)) \<le> chunk_size self \<Longrightarrow> bounded self (chunks @ [c])"
  by (rule bounded_append [where ts = "[ctext c]"]) simp_all

lemma pdf_step_cases:
  assumes "pdf_step self (chunks, k) b = Inr st'"
  obtains (short) t c where "b_text b = Some t" "int (length t) \<le> chunk_size self"
      "st' = (chunks @ [c], k + 1)" "ctext c = t" "index c = k"
  | (long) t m where "b_text b = Some t" "\<not> int (length t) \<le> chunk_size self"
      "st' = foldl (append_part m) (chunks, k) (enumerate 0 (split_text_with_overlap self t))"
proof -
  from assms obtain t p s where g: "b_text b = Some t" "b_page b = Some p" "b_section b = Some s"
    by (auto simp: pdf_step_def getitem_def split: option.splits)
  show thesis
  proof (cases "int (length t) \<le> chunk_size self")
    case True
    show thesis
      by (rule short [OF g(1) True]) (use assms True in \<open>auto simp: pdf_step_def getitem_def g\<close>)
  next
    case False
    show thesis
      by (rule long [OF g(1) False]) (use assms False in \<open>auto simp: pdf_step_def getitem_def g\<close>)
  qed
qed

lemma markdown_step_cases:
  assumes "markdown_step self (chunks, k) b = Inr st'"
  obtains (short) t c where "b_text b = Some t" "int (length t) \<le> chunk_size self"
      "st' = (chunks @ [c], k + 1)" "ctext c = t" "index c = k"
  | (long) t m where "b_text b = Some t" "\<not> int (length t) \<le> chunk_size self"
      "st' = foldl (append_part m) (chunks, k) (enumerate 0 (split_text_with_overlap self t))"
proof -
  from assms obtain t s where g: "b_text b = Some t" "b_section b = Some s"
    by (auto simp: markdown_step_def getitem_def split: option.splits)
  show thesis
  proof (cases "int (length t) \<le> chunk_size self")
    case True
    show thesis
      by (rule short [OF g(1) True]) (use assms True in \<open>auto simp: markdown_step_def getitem_def g\<close>)
  next
    case False
    show thesis
      by (rule long [OF g(1) False]) (use assms False in \<open>auto simp: markdown_step_def getitem_def g\<close>)
  qed
qed

lemma slide_step_cases:
  assumes "slide_step self chunks (i, b) = Inr chunks'"
  obtains (short) t c where "b_text b = Some t" "int (length t) \<le> chunk_size self"
      "chunks' = chunks @ [c]" "ctext c = t" "index c = int i"
  | (long) t s p where "b_text b = Some t" "\<not> int (length t) \<le> chunk_size self"
      "chunks' = foldl (append_slide_part s p) chunks (enumerate 0 (split_text_with_overlap self t))"
proof -
  from assms obtain t p s where g: "b_text b = Some t" "b_slide b = Some p" "b_section b = Some s"
    by (auto simp: slide_step_def getitem_def split: option.splits)
  show thesis
  proof (cases "int (length t) \<le> chunk_size self")
    case True
    show thesis
      by (rule short [OF g(1) True]) (use assms True in \<open>auto simp: slide_step_def getitem_def g\<close>)
  next
    case False
    show thesis
      by (rule long [OF g(1) False]) (use assms False in \<open>auto simp: slide_step_def getitem_def g\<close>)
  qed
qed

lemma pdf_step_bounded:
  assumes "0 \<le> chunk_size self" "bounded self (fst st)" "pdf_step self st b = Inr st'"
  shows "bounded self (fst st')"
proof -
  obtain chunks k where st: "st = (chunks, k)" by (cases st)
  have bc: "bounded self chunks" using assms(2) st by simp
  from assms(3) [unfolded st] show ?thesis
  proof (cases rule: pdf_step_cases)
    case (short t c)
    then show ?thesis using bounded_snoc [OF bc, of c] by simp
  next
    case (long t m)
    then show ?thesis using bounded_parts [OF assms(1) bc] by simp
  qed
qed

lemma markdown_step_bounded:
  assumes "0 \<le> chunk_size self" "bounded self (fst st)" "markdown_step self st b = Inr st'"
  shows "bounded self (fst st')"
proof -
  obtain chunks k where st: "st = (chunks, k)" by (cases st)
  have bc: "bounded self chunks" using assms(2) st by simp
  from assms(3) [unfolded st] show ?thesis
  proof (cases rule: markdown_step_cases)
    case (short t c)
    then show ?thesis using bounded_snoc [OF bc, of c] by simp
  next
    case (long t m)
    then show ?thesis using bounded_parts [OF assms(1) bc] by simp
  qed
qed

lemma slide_step_bounded:
  assumes "0 \<le> chunk_size self" "bounded self chunks" "slide_step self chunks ib = Inr chunks'"
  shows "bounded self chunks'"
proof -
  obtain i b where ib: "ib = (i, b)" by (cases ib)
  from assms(3) [unfolded ib] show ?thesis
  proof (cases rule: slide_step_cases)
    case (short t c)
    then show ?thesis using bounded_snoc [OF assms(2), of c] by simp
  next
    case (long t s p)
    then show ?thesis using bounded_slide_parts [OF assms(1) assms(2)] by simp
  qed
qed

lemma flush_bounded:
  "int (length cur) \<le> chunk_size self \<Longrightarrow> int (length (ctext (flush_chunk k cur meta))) \<le> chunk_size self"
  using length_strip [of cur] by (simp add: flush_chunk_def)

lemma para_step_unfold:
  assumes para: "b_text b = Some para"
    and d1: "sect = get_default (b_section b) []"
    and d2: "new_section = (sect \<noteq> sec \<and> cur \<noteq> [])"
    and d3: "chunks1 = (if new_section then chunks @ [flush_chunk k cur meta] else chunks)"
    and d4: "k1 = (if new_section then k + 1 else k)"
    and d5: "cur1 = (if new_section then [] else cur)"
    and d6: "meta1 = no_meta\<lparr>m_section := Some sect,
                                m_paragraph := Some (get_default (b_paragraph b) 0),
                                m_chunk_type := Some ''paragraph''\<rparr>"
    and d7: "chunks2 = (if cur1 \<noteq> [] then chunks1 @ [flush_chunk k1 cur1 meta1] else chunks1)"
    and d8: "k2 = (if cur1 \<noteq> [] then k1 + 1 else k1)"
  shows "para_step self (chunks, k, cur, sec, meta) b =
     (if int (length (cur1 @ [0x0A] @ para)) > chunk_size self
      then (if int (length para) > chunk_size self
            then (case foldl (append_part meta1) (chunks2, k2)
                         (enumerate 0 (split_text_with_overlap self para)) of
                    (chunks3, k3) \<Rightarrow> Inr (chunks3, k3, [], sect, meta1))
            else Inr (chunks2, k2, para, sect, meta1))
      else Inr (chunks1, k1, (if cur1 \<noteq> [] then cur1 @ [0x0A] @ para else para), sect, meta1))"
  unfolding para_step_def d8 d7 d6 d5 d4 d3 d2 d1
  by (simp only: prod.case getitem_def para option.case sum.case Let_def)

lemma para_step_inv:
  assumes cs: "0 \<le> chunk_size self" and inv: "para_inv self st" and step: "para_step self st b = Inr st'"
  shows "para_inv self st'"
proof -
  obtain chunks k cur sec meta where st: "st = (chunks, k, cur, sec, meta)" by (cases st)
  from inv st have bc: "bounded self chunks" and lc: "int (length cur) \<le> chunk_size self"
    by (simp_all add: para_inv_def)
  from step st obtain para where para: "b_text b = Some para"
    by (cases "b_text b") (simp_all add: para_step_def getitem_def)
  define sect where "sect = get_default (b_section b) []"
  define new_section where "new_section \<longleftrightarrow> sect \<noteq> sec \<and> cur \<noteq> []"
  define chunks1 where "chunks1 = (if new_section then chunks @ [flush_chunk k cur meta] else chunks)"
  define k1 where "k1 = (if new_section then k + 1 else k)"
  define cur1 where "cur1 = (if new_section then [] else cur)"
  define meta1 where "meta1 = no_meta\<lparr>m_section := Some sect,
                                m_paragraph := Some (get_default (b_paragraph b) 0),
                                m_chunk_type := Some ''paragraph''\<rparr>"
  define chunks2 where "chunks2 = (if cur1 \<noteq> [] then chunks1 @ [flush_chunk k1 cur1 meta1] else chunks1)"
  define k2 where "k2 = (if cur1 \<noteq> [] then k1 + 1 else k1)"
  note eq = para_step_unfold [OF para sect_def new_section_def chunks1_def k1_def cur1_def
      meta1_def chunks2_def k2_def, of self]
  have b1: "bounded self chunks1"
    unfolding chunks1_def using bc bounded_snoc [OF bc flush_bounded [OF lc]] by simp
  have l1: "int (length cur1) \<le> chunk_size self"
    unfolding cur1_def using lc cs by simp
  have b2: "bounded self chunks2"
    unfolding chunks2_def using b1 bounded_snoc [OF b1 flush_bounded [OF l1]] by simp
  show ?thesis
  proof (cases "int (length (cur1 @ [0x0A] @ para)) > chunk_size self")
    case False
    then have "st' = (chunks1, k1, (if cur1 \<noteq> [] then cur1 @ [0x0A] @ para else para), sect, meta1)"
      using step [unfolded st eq] by simp
    moreover have "int (length (if cur1 \<noteq> [] then cur1 @ [0x0A] @ para else para)) \<le> chunk_size self"
      using False by simp
    ultimately show ?thesis using b1 by (simp add: para_inv_def)
  next
    case True
    show ?thesis
    proof (cases "int (length para) > chunk_size self")
      case False
      then have "st' = (chunks2, k2, para, sect, meta1)" using step [unfolded st eq] True by simp
      then show ?thesis using b2 False by (simp add: para_inv_def)
    next
      case long: True
      obtain chunks3 k3 where f: "foldl (append_part meta1) (chunks2, k2)
                         (enumerate 0 (split_text_with_overlap self para)) = (chunks3, k3)"
        by (cases "foldl (append_part meta1) (chunks2, k2)
                         (enumerate 0 (split_text_with_overlap self para))")
      have "bounded self chunks3" using bounded_parts [OF cs b2, of meta1 k2 para] f by simp
      moreover have "st' = (chunks3, k3, [], sect, meta1)"
        using step [unfolded st eq] True long f by simp
      ultimately show ?thesis using cs by (simp add: para_inv_def)
    qed
  qed
qed

lemma chunk_document_bounded:
  assumes cs: "0 \<le> chunk_size self" and res: "chunk_document self doc = Inr chunks"
  shows "bounded self chunks"
proof -
  have e: "bounded self []" by (simp add: bounded_def)
  have pdf: "bounded self cs'" if "chunk_pdf_content self bl = Inr cs'" for bl cs'
  proof -
    from that obtain st where st: "for_each (pdf_step self) ([], 0) bl = Inr st" and f: "cs' = fst st"
      by (cases "for_each (pdf_step self) ([], 0) bl") (simp_all add: chunk_pdf_content_def)
    have "bounded self (fst st)"
    proof (rule for_each_invariant [OF st, where I = "\<lambda>s. bounded self (fst s)"])
      show "bounded self (fst ([], 0))" using e by simp
    qed (rule pdf_step_bounded [OF cs])
    then show ?thesis using f by simp
  qed
  have md: "bounded self cs'" if "chunk_markdown_content self bl = Inr cs'" for bl cs'
  proof -
    from that obtain st where st: "for_each (markdown_step self) ([], 0) bl = Inr st" and f: "cs' = fst st"
      by (cases "for_each (markdown_step self) ([], 0) bl") (simp_all add: chunk_markdown_content_def)
    have "bounded self (fst st)"
    proof (rule for_each_invariant [OF st, where I = "\<lambda>s. bounded self (fst s)"])
      show "bounded self (fst ([], 0))" using e by simp
    qed (rule markdown_step_bounded [OF cs])
    then show ?thesis using f by simp
  qed
  have sl: "bounded self cs'" if "chunk_slide_content self bl = Inr cs'" for bl cs'
    by (rule for_each_invariant [OF that [unfolded chunk_slide_content_def], where I = "bounded self"])
       (rule e, rule slide_step_bounded [OF cs])
  have pa: "bounded self cs'" if "chunk_paragraph_content self bl = Inr cs'" for bl cs'
  proof -
    from that obtain st where st: "for_each (para_step self) ([], 0, [], [], no_meta) bl = Inr st"
      by (cases "for_each (para_step self) ([], 0, [], [], no_meta) bl")
         (simp_all add: chunk_paragraph_content_def)
    have i0: "para_inv self ([], 0, [], [], no_meta)" using e cs by (simp add: para_inv_def)
    have i: "para_inv self st"
      by (rule for_each_invariant [OF st, where I = "para_inv self"])
         (rule i0, rule para_step_inv [OF cs])
    obtain c k cur sec meta where s: "st = (c, k, cur, sec, meta)" by (cases st)
    from that st s have r: "cs' = (if cur \<noteq> [] then c @ [flush_chunk k cur meta] else c)"
      by (simp add: chunk_paragraph_content_def)
    from i s have bc: "bounded self c" and lc: "int (length cur) \<le> chunk_size self"
      by (simp_all add: para_inv_def)
    show ?thesis unfolding r using bc bounded_snoc [OF bc flush_bounded [OF lc]] by simp
  qed
  have raw: "bounded self (chunk_raw_text self tx)" for tx
  proof -
    have "map ctext (chunk_raw_text self tx) = split_text_with_overlap self tx"
    proof -
      have "map ctext (map raw_chunk ips) = map snd ips" for ips
        by (induction ips) (auto simp: raw_chunk_def)
      then show ?thesis by (simp add: chunk_raw_text_def del: map_map)
    qed
    then show ?thesis using split_parts_bounded [OF cs] by (simp add: bounded_def)
  qed
  show ?thesis
  proof (cases "doc_type doc = ''pdf''")
    case True
    then show ?thesis using res pdf by (simp add: chunk_document_def)
  next
    case n1: False
    show ?thesis
    proof (cases "doc_type doc \<in> set [''docx'', ''txt'']")
      case True
      then show ?thesis using res pa n1 by (simp add: chunk_document_def)
    next
      case n2: False
      show ?thesis
      proof (cases "doc_type doc = ''pptx''")
        case True
        then show ?thesis using res sl n1 n2 by (simp add: chunk_document_def)
      next
        case n3: False
        show ?thesis
        proof (cases "doc_type doc = ''markdown''")
          case True
          then show ?thesis using res md n1 n2 n3 by (simp add: chunk_document_def)
        next
          case False
          then show ?thesis using res raw [of "raw_text doc"] n1 n2 n3 by (auto simp: chunk_document_def)
        qed
      qed
    qed
  qed
qed

section \<open>Progress of the splitter\<close>








section \<open>Evaluation of the splitter on concrete texts\<close>

lemmas split_eval = split_text_with_overlap_def split_loop.simps split_starts.simps split_step_eq
  py_slice_def slice_index_def strip_def is_space_def Let_def

section \<open>Chunk indices of the strategies with a running counter\<close>

lemma contiguous_snoc:
  "contiguous chunks \<Longrightarrow> index c = int (length chunks) \<Longrightarrow> contiguous (chunks @ [c])"
  by (simp add: contiguous_def)

lemma counted_snoc:
  "counted (chunks, k) \<Longrightarrow> index c = k \<Longrightarrow> counted (chunks @ [c], k + 1)"
  by (simp add: counted_def contiguous_snoc)

lemma foldl_invariant:
  "(\<And>s x. I s \<Longrightarrow> I (f s x)) \<Longrightarrow> I s \<Longrightarrow> I (foldl f s xs)"
  by (induction xs arbitrary: s) simp_all

lemma counted_append_part: "counted st \<Longrightarrow> counted (append_part meta st ip)"
proof -
  assume c: "counted st"
  obtain chunks k where st: "st = (chunks, k)" by (cases st)
  obtain i t where ip: "ip = (i, t)" by (cases ip)
  show ?thesis unfolding st ip append_part_pair
    by (rule counted_snoc) (use c st in simp_all)
qed

lemma counted_parts: "counted st \<Longrightarrow> counted (foldl (append_part meta) st ips)"
  by (rule foldl_invariant [where I = counted]) (rule counted_append_part)

lemma pdf_step_counted:
  assumes "counted st" "pdf_step self st b = Inr st'"
  shows "counted st'"
proof -
  obtain chunks k where st: "st = (chunks, k)" by (cases st)
  from assms(2) [unfolded st] show ?thesis
  proof (cases rule: pdf_step_cases)
    case (short t c)
    then show ?thesis using counted_snoc [of chunks k c] assms(1) st by simp
  next
    case (long t m)
    have "counted (foldl (append_part m) (chunks, k) (enumerate 0 (split_text_with_overlap self t)))"
      by (rule counted_parts) (use assms(1) st in simp)
    then show ?thesis using long by simp
  qed
qed

lemma markdown_step_counted:
  assumes "counted st" "markdown_step self st b = Inr st'"
  shows "counted st'"
proof -
  obtain chunks k where st: "st = (chunks, k)" by (cases st)
  from assms(2) [unfolded st] show ?thesis
  proof (cases rule: markdown_step_cases)
    case (short t c)
    then show ?thesis using counted_snoc [of chunks k c] assms(1) st by simp
  next
    case (long t m)
    have "counted (foldl (append_part m) (chunks, k) (enumerate 0 (split_text_with_overlap self t)))"
      by (rule counted_parts) (use assms(1) st in simp)
    then show ?thesis using long by simp
  qed
qed

lemma flush_index: "index (flush_chunk k cur meta) = k"
  by (simp add: flush_chunk_def)

lemma para_step_counted:
  assumes inv: "counted (fst st, fst (snd st))" and step: "para_step self st b = Inr st'"
  shows "counted (fst st', fst (snd st'))"
proof -
  obtain chunks k cur sec meta where st: "st = (chunks, k, cur, sec, meta)" by (cases st)
  from inv st have c0: "counted (chunks, k)" by simp
  from step st obtain para where para: "b_text b = Some para"
    by (cases "b_text b") (simp_all add: para_step_def getitem_def)
  define sect where "sect = get_default (b_section b) []"
  define new_section where "new_section \<longleftrightarrow> sect \<noteq> sec \<and> cur \<noteq> []"
  define chunks1 where "chunks1 = (if new_section then chunks @ [flush_chunk k cur meta] else chunks)"
  define k1 where "k1 = (if new_section then k + 1 else k)"
  define cur1 where "cur1 = (if new_section then [] else cur)"
  define meta1 where "meta1 = no_meta\<lparr>m_section := Some sect,
                                m_paragraph := Some (get_default (b_paragraph b) 0),
                                m_chunk_type := Some ''paragraph''\<rparr>"
  define chunks2 where "chunks2 = (if cur1 \<noteq> [] then chunks1 @ [flush_chunk k1 cur1 meta1] else chunks1)"
  define k2 where "k2 = (if cur1 \<noteq> [] then k1 + 1 else k1)"
  note eq = para_step_unfold [OF para sect_def new_section_def chunks1_def k1_def cur1_def
      meta1_def chunks2_def k2_def, of self]
  have c1: "counted (chunks1, k1)"
    unfolding chunks1_def k1_def using c0 counted_snoc [OF c0 flush_index] by simp
  have c2: "counted (chunks2, k2)"
    unfolding chunks2_def k2_def using c1 counted_snoc [OF c1 flush_index] by simp
  show ?thesis
  proof (cases "int (length (cur1 @ [0x0A] @ para)) > chunk_size self")
    case False
    then have "st' = (chunks1, k1, (if cur1 \<noteq> [] then cur1 @ [0x0A] @ para else para), sect, meta1)"
      using step [unfolded st eq] by simp
    then show ?thesis using c1 by simp
  next
    case True
    show ?thesis
    proof (cases "int (length para) > chunk_size self")
      case False
      then have "st' = (chunks2, k2, para, sect, meta1)" using step [unfolded st eq] True by simp
      then show ?thesis using c2 by simp
    next
      case long: True
      obtain chunks3 k3 where f: "foldl (append_part meta1) (chunks2, k2)
                         (enumerate 0 (split_text_with_overlap self para)) = (chunks3, k3)"
        by (cases "foldl (append_part meta1) (chunks2, k2)
                         (enumerate 0 (split_text_with_overlap self para))")
      have "counted (foldl (append_part meta1) (chunks2, k2)
                         (enumerate 0 (split_text_with_overlap self para)))"
        by (rule counted_parts [OF c2])
      then have "counted (chunks3, k3)" unfolding f .
      moreover have "st' = (chunks3, k3, [], sect, meta1)"
        using step [unfolded st eq] True long f by simp
      ultimately show ?thesis by simp
    qed
  qed
qed

lemma raw_indices: "map index (map raw_chunk (enumerate n xs)) = map int [n ..< n + length xs]"
proof (induction xs arbitrary: n)
  case Nil
  show ?case by simp
next
  case (Cons x xs)
  have "n < n + length (x # xs)" by simp
  then have "[n ..< n + length (x # xs)] = n # [Suc n ..< n + length (x # xs)]"
    by (rule upt_conv_Cons)
  then have "[n ..< n + length (x # xs)] = n # [Suc n ..< Suc n + length xs]" by simp
  then show ?case using Cons.IH [of "Suc n"] by (simp add: raw_chunk_def)
qed

lemma chunk_document_contiguous:
  assumes np: "doc_type doc \<noteq> ''pptx''" and res: "chunk_document self doc = Inr chunks"
  shows "contiguous chunks"
proof -
  have e: "counted ([], 0)" by (simp add: counted_def contiguous_def)
  have pdf: "contiguous cs'" if "chunk_pdf_content self bl = Inr cs'" for bl cs'
  proof -
    from that obtain st where st: "for_each (pdf_step self) ([], 0) bl = Inr st" and f: "cs' = fst st"
      by (cases "for_each (pdf_step self) ([], 0) bl") (simp_all add: chunk_pdf_content_def)
    have "counted st"
      by (rule for_each_invariant [OF st, where I = counted]) (rule e, rule pdf_step_counted)
    then show ?thesis using f by (simp add: counted_def)
  qed
  have md: "contiguous cs'" if "chunk_markdown_content self bl = Inr cs'" for bl cs'
  proof -
    from that obtain st where st: "for_each (markdown_step self) ([], 0) bl = Inr st" and f: "cs' = fst st"
      by (cases "for_each (markdown_step self) ([], 0) bl") (simp_all add: chunk_markdown_content_def)
    have "counted st"
      by (rule for_each_invariant [OF st, where I = counted]) (rule e, rule markdown_step_counted)
    then show ?thesis using f by (simp add: counted_def)
  qed
  have pa: "contiguous cs'" if "chunk_paragraph_content self bl = Inr cs'" for bl cs'
  proof -
    from that obtain st where st: "for_each (para_step self) ([], 0, [], [], no_meta) bl = Inr st"
      by (cases "for_each (para_step self) ([], 0, [], [], no_meta) bl")
         (simp_all add: chunk_paragraph_content_def)
    have i: "counted (fst st, fst (snd st))"
      by (rule for_each_invariant [OF st, where I = "\<lambda>s. counted (fst s, fst (snd s))"])
         (use e in simp, rule para_step_counted)
    obtain c k cur sec meta where s: "st = (c, k, cur, sec, meta)" by (cases st)
    from that st s have r: "cs' = (if cur \<noteq> [] then c @ [flush_chunk k cur meta] else c)"
      by (simp add: chunk_paragraph_content_def)
    from i s have ck: "counted (c, k)" by simp
    show ?thesis unfolding r using ck counted_snoc [OF ck flush_index] by (simp add: counted_def)
  qed
  have raw: "contiguous (chunk_raw_text self tx)" for tx
    using raw_indices [of 0 "split_text_with_overlap self tx"]
    by (simp add: contiguous_def chunk_raw_text_def)
  show ?thesis
  proof (cases "doc_type doc = ''pdf''")
    case True
    then show ?thesis using res pdf by (simp add: chunk_document_def)
  next
    case n1: False
    show ?thesis
    proof (cases "doc_type doc \<in> set [''docx'', ''txt'']")
      case True
      then show ?thesis using res pa n1 by (simp add: chunk_document_def)
    next
      case n2: False
      show ?thesis
      proof (cases "doc_type doc = ''markdown''")
        case True
        then show ?thesis using res md n1 n2 np by (simp add: chunk_document_def)
      next
        case False
        then show ?thesis using res raw [of "raw_text doc"] n1 n2 np by (auto simp: chunk_document_def)
      qed
    qed
  qed
qed

section \<open>Confidence, citations and scores\<close>

lemmas rag_eval = cited_count_def is_digit_def ascii_digits_def refusal_flag_def
  refusal_keywords_def Let_def get_default_def

lemma sum_list_unit_bounds:
  "(\<And>x. x \<in> set xs \<Longrightarrow> 0 \<le> f x \<and> f x \<le> (1::real)) \<Longrightarrow>
   0 \<le> sum_list (map f xs) \<and> sum_list (map f xs) \<le> real (length xs)"
proof (induction xs)
  case Nil
  show ?case by simp
next
  case (Cons x xs)
  have "0 \<le> f x \<and> f x \<le> 1" by (rule Cons.prems) simp
  moreover have "0 \<le> sum_list (map f xs) \<and> sum_list (map f xs) \<le> real (length xs)"
    by (rule Cons.IH) (simp add: Cons.prems)
  ultimately show ?case by simp
qed

lemma conf_arith:
  fixes x y y' :: real
  assumes "0 \<le> x" "x \<le> 1" "0 \<le> y'" "y' \<le> y" "y \<le> 1"
  shows "max 0 (min 1 ((0.4 * x + 0.4 * y' + 0.2) * 0.5)) < max 0 (min 1 (0.4 * x + 0.4 * y + 0.2))"
proof -
  have h: "(0.4 * x + 0.4 * y' + 0.2) * 0.5 = 0.2 * x + 0.2 * y' + 0.1" by simp
  have 1: "0 < 0.2 * x + 0.2 * y' + 0.1" using assms by linarith
  have 2: "0.2 * x + 0.2 * y' + 0.1 < 0.4 * x + 0.4 * y + 0.2" using assms by linarith
  have 3: "0.4 * x + 0.4 * y + 0.2 \<le> 1" using assms by linarith
  have 4: "0.2 * x + 0.2 * y' + 0.1 \<le> 1" using 2 3 by linarith
  have 5: "0 < 0.4 * x + 0.4 * y + 0.2" using 1 2 by linarith
  have l: "max 0 (min 1 (0.2 * x + 0.2 * y' + 0.1)) = 0.2 * x + 0.2 * y' + 0.1"
    using 1 4 by (simp only: max_def min_def split: if_splits) linarith
  have r: "max 0 (min 1 (0.4 * x + 0.4 * y + 0.2)) = 0.4 * x + 0.4 * y + 0.2"
    using 3 5 by (simp only: max_def min_def split: if_splits) linarith
  show ?thesis unfolding h l r by (rule 2)
qed

lemma confidence_in_unit: "0 \<le> calculate_confidence dv ds a \<and> calculate_confidence dv ds a \<le> 1"
  by (simp add: calculate_confidence_def Let_def)

lemma confidence_refusal_less:
  assumes ne: "ds \<noteq> []"
    and sc: "\<And>d. d \<in> set ds \<Longrightarrow> 0 \<le> get_default (d_score d) 0 \<and> get_default (d_score d) 0 \<le> 1"
    and nr: "\<not> refusal_flag a" and r: "refusal_flag a'"
    and cnt: "cited_count dv a' \<le> cited_count dv a"
  shows "calculate_confidence dv ds a' < calculate_confidence dv ds a"
proof -
  let ?n = "real (length ds)"
  let ?avg = "sum_list (map (\<lambda>d. get_default (d_score d) 0) ds) / ?n"
  let ?cov = "min (real (cited_count dv a) / ?n) 1"
  let ?cov' = "min (real (cited_count dv a') / ?n) 1"
  have n: "0 < ?n" using ne by simp
  have s: "0 \<le> sum_list (map (\<lambda>d. get_default (d_score d) 0) ds) \<and>
           sum_list (map (\<lambda>d. get_default (d_score d) 0) ds) \<le> ?n"
    by (rule sum_list_unit_bounds) (rule sc)
  have avg: "0 \<le> ?avg" "?avg \<le> 1" using s n by (simp_all add: divide_le_eq)
  have "real (cited_count dv a') / ?n \<le> real (cited_count dv a) / ?n"
    using cnt n by (simp add: divide_right_mono)
  then have cov: "?cov' \<le> ?cov" by (simp add: min_def)
  have c0: "0 \<le> ?cov'" using n by (simp add: min_def)
  have c1: "?cov \<le> 1" by simp
  have a: "calculate_confidence dv ds a = max 0 (min 1 (0.4 * ?avg + 0.4 * ?cov + 0.2))"
  proof -
    have "(ds = []) = False" "refusal_flag a = False" using ne nr by simp_all
    then show ?thesis by (simp only: calculate_confidence_def Let_def if_False)
  qed
  have a': "calculate_confidence dv ds a' = max 0 (min 1 ((0.4 * ?avg + 0.4 * ?cov' + 0.2) * 0.5))"
  proof -
    have "(ds = []) = False" "refusal_flag a' = True" using ne r by simp_all
    then show ?thesis by (simp only: calculate_confidence_def Let_def if_False if_True)
  qed
  show ?thesis unfolding a a' by (rule conf_arith [OF avg c0 cov c1])
qed

lemma list_getitem_cited:
  "1 \<le> num \<Longrightarrow> num \<le> int (length xs) \<Longrightarrow> list_getitem xs (num - 1) = Inr (xs ! nat (num - 1))"
  by (simp add: list_getitem_def)

lemma cite_ids:
  assumes c: "c \<in> set (cite dv ds num_str)"
  shows "\<exists>d \<in> set ds. cited_chunk_id c = chunk_id (d_chunk d)"
proof (cases "py_int dv num_str")
  case (Inl e)
  have "cite dv ds num_str = []" using Inl by (simp add: cite_def)
  then show ?thesis using c by simp
next
  case (Inr num)
  show ?thesis
  proof (cases "1 \<le> num \<and> num \<le> int (length ds)")
    case False
    have "cite dv ds num_str = []" using Inr False by (auto simp: cite_def)
    then show ?thesis using c by simp
  next
    case True
    then have "nat (num - 1) < length ds" by (simp add: nat_less_iff)
    then have m: "ds ! nat (num - 1) \<in> set ds" by (rule nth_mem)
    from True have g: "list_getitem ds (num - 1) = Inr (ds ! nat (num - 1))"
      by (simp add: list_getitem_cited)
    from c Inr True g have "cited_chunk_id c = chunk_id (d_chunk (ds ! nat (num - 1)))"
      by (auto simp: cite_def)
    with m show ?thesis by blast
  qed
qed

lemma extract_citations_ids:
  "c \<in> set (extract_citations dv ds a) \<Longrightarrow> \<exists>d \<in> set ds. cited_chunk_id c = chunk_id (d_chunk d)"
  by (auto simp: extract_citations_def dest: cite_ids)

lemma hit_score_eq: "hit_score (hit_of_row r) = max 0 (1 - row_distance r)"
  by (simp add: hit_of_row_def Let_def)

text \<open>
  The lower bound is the only one the adapter applies: its score is the two-sided
  clamp exactly for the distances that are not negative.
\<close>

lemma hit_score_clamp_iff:
  "hit_score (hit_of_row r) = max 0 (min 1 (1 - row_distance r)) \<longleftrightarrow> 0 \<le> row_distance r"
  by (auto simp: hit_score_eq max_def min_def)



subsection \<open>Inserting a refusal phrase\<close>

text \<open>
  A refusal phrase inserted anywhere into an answer sets the refusal flag and adds no
  bracketed reference, provided no character of the phrase and not the opening bracket
  counts as a digit. So the answer with the phrase gets the strictly smaller confidence.
\<close>

lemma findall_skip:
  "\<forall>c \<in> set xs. c \<noteq> 0x5B \<Longrightarrow> findall_citations dv (xs @ ys) = findall_citations dv ys"
  by (induction xs) simp_all

lemma py_in_prefix: "py_in kw (kw @ post)"
proof (cases "kw @ post")
  case Nil
  then show ?thesis by simp
next
  case (Cons a list)
  have "take (length kw) (kw @ post) = kw" by simp
  then have "take (length kw) (a # list) = kw" unfolding Cons .
  then show ?thesis unfolding Cons by simp
qed

lemma py_in_inject: "py_in kw (pre @ kw @ post)"
  by (induction pre) (simp_all add: py_in_prefix)

lemma refusal_flag_inject: "kw \<in> set refusal_keywords \<Longrightarrow> refusal_flag (pre @ kw @ post)"
  unfolding refusal_flag_def list_ex_iff using py_in_inject by blast

lemma cited_count_inject:
  assumes br: "\<not> is_digit dv 0x5B"
    and kw: "kw \<noteq> []" "\<forall>c \<in> set kw. \<not> is_digit dv c \<and> c \<noteq> 0x5B \<and> c \<noteq> 0x5D"
  shows "cited_count dv (pre @ kw @ post) \<le> cited_count dv (pre @ post)"
proof (induction "length pre" arbitrary: pre rule: less_induct)
  case less
  let ?P = "is_digit dv"
  have kw_skip: "findall_citations dv (kw @ post) = findall_citations dv post"
    by (rule findall_skip) (use kw(2) in blast)
  show ?case
  proof (cases pre)
    case Nil
    then show ?thesis by (simp add: cited_count_def kw_skip)
  next
    case (Cons c pre')
    have ih': "cited_count dv (pre' @ kw @ post) \<le> cited_count dv (pre' @ post)"
      by (rule less) (simp add: Cons)
    show ?thesis
    proof (cases "c = 0x5B")
      case False
      then show ?thesis using ih' by (simp add: Cons cited_count_def)
    next
      case True
      show ?thesis
      proof (cases "list_all ?P pre'")
        case all: True
        then have dig: "\<forall>x \<in> set pre'. ?P x" by (simp add: list_all_iff)
        then have nobr: "\<forall>x \<in> set pre'. x \<noteq> 0x5B" using br by auto
        obtain k ks where k: "kw = k # ks" using kw(1) by (cases kw) auto
        have nk: "\<not> ?P k" "k \<noteq> 0x5D" using kw(2) k by auto
        have tw: "takeWhile ?P (pre' @ k # ks @ post) = pre'"
          using dig nk by (simp add: takeWhile_append2)
        have dw: "dropWhile ?P (pre' @ k # ks @ post) = k # ks @ post"
          using dig nk by (simp add: dropWhile_append2)
        have new: "findall_citations dv (pre @ kw @ post) = findall_citations dv post"
        proof -
          have "findall_citations dv (pre @ kw @ post) = findall_citations dv (pre' @ kw @ post)"
            using nk by (simp add: Cons True tw dw k)
          also have "\<dots> = findall_citations dv (kw @ post)" by (rule findall_skip [OF nobr])
          finally show ?thesis by (simp add: kw_skip)
        qed
        have tw0: "takeWhile ?P (pre' @ post) = pre' @ takeWhile ?P post"
          using dig by (simp add: takeWhile_append2)
        have dw0: "dropWhile ?P (pre' @ post) = dropWhile ?P post"
          using dig by (simp add: dropWhile_append2)
        show ?thesis
        proof (cases "takeWhile ?P (pre' @ post) \<noteq> [] \<and> dropWhile ?P (pre' @ post) \<noteq> [] \<and>
            hd (dropWhile ?P (pre' @ post)) = 0x5D")
          case False
          then have "findall_citations dv (pre @ post) = findall_citations dv (pre' @ post)"
            by (auto simp: Cons True)
          also have "\<dots> = findall_citations dv post" by (rule findall_skip [OF nobr])
          finally show ?thesis using new by (simp add: cited_count_def)
        next
          case m: True
          then have old: "findall_citations dv (pre @ post)
              = takeWhile ?P (pre' @ post) # findall_citations dv (tl (dropWhile ?P post))"
            by (simp add: Cons True dw0)
          from m obtain rest where dp: "dropWhile ?P post = 0x5D # rest"
            by (cases "dropWhile ?P post") (auto simp: dw0)
          have "post = takeWhile ?P post @ dropWhile ?P post" by simp
          then have post: "post = takeWhile ?P post @ [0x5D] @ rest" by (simp add: dp)
          have "\<forall>x \<in> set (takeWhile ?P post @ [0x5D]). x \<noteq> 0x5B"
            using br by (auto dest: set_takeWhileD)
          from findall_skip [OF this, of dv rest]
          have "findall_citations dv (takeWhile ?P post @ [0x5D] @ rest) = findall_citations dv rest"
            by simp
          then have "findall_citations dv post = findall_citations dv rest" using post by simp
          then show ?thesis using new old by (simp add: cited_count_def dp)
        qed
      next
        case nall: False
        then have ex: "\<exists>x \<in> set pre'. \<not> ?P x" by (simp add: list_all_iff)
        from ex obtain x where x: "x \<in> set pre'" "\<not> ?P x" by blast
        have twn: "takeWhile ?P (pre' @ ys) = takeWhile ?P pre'" for ys
          using x by (rule takeWhile_append1 [where P = "is_digit dv"])
        have dwn: "dropWhile ?P (pre' @ ys) = dropWhile ?P pre' @ ys" for ys
          using x by (rule dropWhile_append1 [where P = "is_digit dv"])
        have dne: "dropWhile ?P pre' \<noteq> []" using ex by (simp add: dropWhile_eq_Nil_conv)
        show ?thesis
        proof (cases "takeWhile ?P pre' \<noteq> [] \<and> hd (dropWhile ?P pre') = 0x5D")
          case False
          then have "findall_citations dv (pre @ ys) = findall_citations dv (pre' @ ys)" for ys
            using dne by (auto simp: Cons True twn dwn)
          then show ?thesis using ih' by (simp add: cited_count_def)
        next
          case m: True
          let ?r = "tl (dropWhile ?P pre')"
          have step: "findall_citations dv (pre @ ys)
              = takeWhile ?P pre' # findall_citations dv (?r @ ys)" for ys
            using m dne by (simp add: Cons True twn dwn)
          have "length ?r < length pre"
            using length_dropWhile_le [of ?P pre'] dne by (simp add: Cons)
          then have "cited_count dv (?r @ kw @ post) \<le> cited_count dv (?r @ post)"
            by (rule less)
          then show ?thesis using step [of "kw @ post"] step [of post]
            by (simp add: cited_count_def)
        qed
      qed
    qed
  qed
qed

lemma refusal_keywords_plain:
  "kw \<in> set refusal_keywords \<Longrightarrow> kw \<noteq> [] \<and> (\<forall>c \<in> set kw. c \<noteq> 0x5B \<and> c \<noteq> 0x5D)"
  by (auto simp: refusal_keywords_def)

lemma confidence_refusal_injected:
  assumes ne: "ds \<noteq> []"
    and sc: "\<And>d. d \<in> set ds \<Longrightarrow> 0 \<le> get_default (d_score d) 0 \<and> get_default (d_score d) 0 \<le> 1"
    and nr: "\<not> refusal_flag (pre @ post)"
    and kw: "kw \<in> set refusal_keywords"
    and dv: "\<not> is_digit dv 0x5B" "\<forall>c \<in> set kw. \<not> is_digit dv c"
  shows "calculate_confidence dv ds (pre @ kw @ post) < calculate_confidence dv ds (pre @ post)"
proof (rule confidence_refusal_less [OF ne sc nr])
  show "refusal_flag (pre @ kw @ post)" by (rule refusal_flag_inject [OF kw])
  show "cited_count dv (pre @ kw @ post) \<le> cited_count dv (pre @ post)"
  proof (rule cited_count_inject [OF dv(1)])
    show "kw \<noteq> []" using refusal_keywords_plain [OF kw] by simp
    show "\<forall>c \<in> set kw. \<not> is_digit dv c \<and> c \<noteq> 0x5B \<and> c \<noteq> 0x5D"
      using refusal_keywords_plain [OF kw] dv(2) by blast
  qed
qed

section \<open>The ingestion task: what every run keeps\<close>

lemmas ingest_eval = ingest_document_task_def on_exception_def commit_def set_failed_def
  set_progress_def mark_done_def pipeline_def Let_def

text \<open>Once the document is loaded, a failure of any later call is recorded on both rows.\<close>

lemma run_steps_failed:
  "run_steps fails steps db = (Some e, db') \<Longrightarrow> \<exists>s \<in> set (map (fst \<circ> snd) steps). fails s = Some e"
proof (induction steps arbitrary: db)
  case Nil
  then show ?case by simp
next
  case (Cons x steps)
  obtain b s a where x: "x = (b, s, a)" by (cases x)
  show ?case
  proof (cases "fails s")
    case None
    with Cons.prems x have "run_steps fails steps (a (b db)) = (Some e, db')" by simp
    from Cons.IH [OF this] show ?thesis by simp
  next
    case (Some m)
    with Cons.prems x show ?thesis by simp
  qed
qed

lemma on_exception_bound:
  "db_task db = Some t \<Longrightarrow> db_document db = Some s \<Longrightarrow>
   on_exception e BoundRow BoundRow db =
     (Finished, commit ((commit (set_failed e db))\<lparr>db_document := Some ''failed''\<rparr>))"
  by (simp add: on_exception_def Let_def commit_def set_failed_def)

text \<open>
  Whatever fails, the progress values that the commits show never decrease, and once a
  commit shows the task as done or failed every later commit shows the same status.
\<close>

lemma ingest_progress_monotone:
  assumes "db_task db = Some t" "progress t \<le> 0.1" "db_commits db = []"
  shows "sorted (commit_progress (snd (ingest_document_task fails db)))"
  using assms
  by (simp add: ingest_eval commit_progress_def split: option.splits)

lemma ingest_terminal_absorbing:
  assumes "db_commits db = []"
  shows "successively (\<lambda>a b. a = ''done'' \<or> a = ''failed'' \<longrightarrow> b = a)
           (commit_status (snd (ingest_document_task fails db)))"
  using assms
  by (simp add: ingest_eval commit_status_def split: option.splits)

lemma ingest_success:
  assumes "\<And>s. fails s = None" "db_task db = Some t" "db_document db = Some d"
  shows "fst (ingest_document_task fails db) = Finished \<and>
         map_option status (db_task (snd (ingest_document_task fails db))) = Some ''done'' \<and>
         map_option progress (db_task (snd (ingest_document_task fails db))) = Some 1 \<and>
         db_document (snd (ingest_document_task fails db)) = Some ''ready''"
  using assms(2,3) by (simp add: ingest_eval assms(1))

lemma ingest_milestones:
  "map (\<lambda>c. (map_option status (fst c), map_option progress (fst c), snd c))
     (db_commits (snd (ingest_document_task (\<lambda>s. None)
       \<lparr>db_task = Some \<lparr>status = ''queued'', progress = 0, error_message = None\<rparr>,
        db_document = Some ''uploaded'', db_commits = []\<rparr>)))
   = [(Some ''processing'', Some 0.1, Some ''uploaded''),
      (Some ''processing'', Some 0.3, Some ''uploaded''),
      (Some ''processing'', Some 0.5, Some ''uploaded''),
      (Some ''processing'', Some 0.7, Some ''uploaded''),
      (Some ''done'', Some 1, Some ''ready'')]"
  by (simp add: ingest_eval)

lemma run_steps_raises:
  "\<exists>x \<in> set steps. fails (fst (snd x)) \<noteq> None \<Longrightarrow> \<exists>e db'. run_steps fails steps db = (Some e, db')"
proof (induction steps arbitrary: db)
  case Nil
  then show ?case by simp
next
  case (Cons x steps)
  obtain b s a where x: "x = (b, s, a)" by (cases x)
  show ?case
  proof (cases "fails s")
    case (Some m)
    then show ?thesis by (simp add: x)
  next
    case None
    with Cons.prems x have "\<exists>x \<in> set steps. fails (fst (snd x)) \<noteq> None" by auto
    from Cons.IH [OF this, of "a (b db)"] show ?thesis by (simp add: x None)
  qed
qed

lemma run_steps_preserves:
  assumes "\<And>b s a db. (b, s, a) \<in> set steps \<Longrightarrow> P db \<Longrightarrow> P (b db) \<and> P (a (b db))"
    and "P db"
  shows "P (snd (run_steps fails steps db))"
  using assms
proof (induction steps arbitrary: db)
  case Nil
  then show ?case by simp
next
  case (Cons x steps)
  obtain b s a where x: "x = (b, s, a)" by (cases x)
  have p: "P (b db) \<and> P (a (b db))" by (rule Cons.prems(1) [of b s a]) (simp_all add: x Cons.prems(2))
  show ?case
  proof (cases "fails s")
    case (Some m)
    then show ?thesis using p by (simp add: x)
  next
    case None
    have "P (snd (run_steps fails steps (a (b db))))"
    proof (rule Cons.IH)
      show "P (a (b db))" using p by simp
      show "P (b' db') \<and> P (a' (b' db'))" if "(b', s', a') \<in> set steps" "P db'" for b' s' a' db'
        by (rule Cons.prems(1) [of b' s' a']) (simp_all add: that)
    qed
    then show ?thesis by (simp add: x None)
  qed
qed

lemma pipeline_keeps_rows:
  assumes "db_task db \<noteq> None \<and> db_document db \<noteq> None"
  shows "db_task (snd (run_steps fails pipeline db)) \<noteq> None \<and>
         db_document (snd (run_steps fails pipeline db)) \<noteq> None"
proof (rule run_steps_preserves [where P = "\<lambda>db. db_task db \<noteq> None \<and> db_document db \<noteq> None"])
  show "db_task db \<noteq> None \<and> db_document db \<noteq> None" by (rule assms)
next
  fix b s a and db :: ingest_db
  assume "(b, s, a) \<in> set pipeline" and "db_task db \<noteq> None \<and> db_document db \<noteq> None"
  then show "(db_task (b db) \<noteq> None \<and> db_document (b db) \<noteq> None) \<and>
             (db_task (a (b db)) \<noteq> None \<and> db_document (a (b db)) \<noteq> None)"
    by (auto simp: pipeline_def set_progress_def commit_def mark_done_def)
qed

lemma ingest_late_failure_recorded:
  assumes ok: "fails QueryTask = None" "fails CommitProcessing = None" "fails QueryDocument = None"
    and rows: "db_task db = Some t" "db_document db = Some d"
    and late: "\<exists>s \<in> {ParseFile, SaveParsed, CommitParsed, ChunkDocument, CommitChunked, GetEmbeddings,
                 CommitEmbedded, PersistChunks, Upsert, CommitDone}. fails s \<noteq> None"
  shows "\<exists>s e. fails s = Some e \<and>
           fst (ingest_document_task fails db) = Finished \<and>
           map_option status (db_task (snd (ingest_document_task fails db))) = Some ''failed'' \<and>
           map_option error_message (db_task (snd (ingest_document_task fails db))) = Some (Some e) \<and>
           db_document (snd (ingest_document_task fails db)) = Some ''failed''"
proof -
  let ?db2 = "commit (db\<lparr>db_task := Some (t\<lparr>status := ''processing'', progress := 0.1\<rparr>)\<rparr>)"
  have "\<exists>x \<in> set pipeline. fails (fst (snd x)) \<noteq> None"
    using late by (auto simp: pipeline_def)
  from run_steps_raises [OF this, of ?db2]
  obtain e db3 where r: "run_steps fails pipeline ?db2 = (Some e, db3)" by blast
  from run_steps_failed [OF r] obtain s where s: "fails s = Some e" by auto
  have "db_task ?db2 \<noteq> None \<and> db_document ?db2 \<noteq> None" using rows by (simp add: commit_def)
  from pipeline_keeps_rows [OF this, of fails] r
  obtain t3 d3 where rows3: "db_task db3 = Some t3" "db_document db3 = Some d3" by auto
  have "ingest_document_task fails db = on_exception e BoundRow BoundRow db3"
    using ok rows r by (simp add: ingest_document_task_def Let_def commit_def)
  also have "\<dots> = (Finished, commit ((commit (set_failed e db3))\<lparr>db_document := Some ''failed''\<rparr>))"
    by (rule on_exception_bound [OF rows3])
  finally have "ingest_document_task fails db
      = (Finished, commit ((commit (set_failed e db3))\<lparr>db_document := Some ''failed''\<rparr>))" .
  then show ?thesis using s rows3 by (auto simp: commit_def set_failed_def)
qed

section \<open>Claims about the chunker\<close>

text \<open>
  C10: a text that fits in one chunk is returned as the one-element list holding the
  text itself, unchanged: no trimming and no dropping applies, also for the empty and
  for a whitespace-only text.
\<close>

theorem split_short_text_unchanged:
  "int (length tx) \<le> chunk_size self \<Longrightarrow> split_text_with_overlap self tx = [tx]"
  by (simp add: split_text_with_overlap_def)

theorem split_short_text_unchanged_witness:
  "int (length [0x20, 0x0A :: nat]) \<le> chunk_size (TextChunker_init (Some 5) None) \<and>
   split_text_with_overlap (TextChunker_init (Some 5) None) [0x20, 0x0A] = [[0x20, 0x0A]]"
proof -
  have h: "int (length [0x20, 0x0A :: nat]) \<le> chunk_size (TextChunker_init (Some 5) None)"
    by (simp add: TextChunker_init_def py_or_def)
  show ?thesis using h split_short_text_unchanged [OF h] by simp
qed

text \<open>
  C1, as stated: a policy with \<open>max_chars = 0\<close> is a policy the chunker accepts; its
  constructor replaces the 0 by the configured size 800. Two paragraphs of one section
  of a \<^verbatim>\<open>docx\<close> document, of two code points each, are then merged into one chunk of
  five code points, which is more than \<open>max_chars\<close>, and the chunk is not a single
  structural unit.
\<close>

theorem merged_paragraphs_exceed_zero_max_chars:
  "chunk_document (TextChunker_init (Some 0) (Some 0))
     \<lparr>content = [\<lparr>b_text = Some [97, 98], b_section = Some [83], b_page = None,
                   b_slide = None, b_paragraph = Some 1\<rparr>,
                 \<lparr>b_text = Some [99, 100], b_section = Some [83], b_page = None,
                   b_slide = None, b_paragraph = Some 2\<rparr>],
      doc_type = ''docx'', raw_text = []\<rparr>
   = Inr [\<lparr>index = 0, ctext = [97, 98, 10, 99, 100],
           metadata = \<lparr>m_section = Some [83], m_page = None, m_slide = None, m_paragraph = Some 2,
                       m_chunk_type = Some ''paragraph'', m_part = None\<rparr>,
           start_offset = 0, end_offset = 5\<rparr>] \<and>
   chunk_size (TextChunker_init (Some 0) (Some 0)) = 800 \<and>
   \<not> int (length [97, 98, 10, 99, 100 :: nat]) \<le> 0"
  by (simp add: chunk_document_def chunk_paragraph_content_def para_step_def flush_chunk_def
      getitem_def get_default_def TextChunker_init_def py_or_def no_meta_def CHUNK_SIZE_def
      CHUNK_OVERLAP_def strip_def is_space_def Let_def)

text \<open>
  C1, amended: for a policy with a positive \<open>max_chars\<close> (and any overlap), every chunk
  that \<open>chunk_document\<close> returns, for a document of any type, has at most \<open>max_chars\<close>
  code points. No chunk is exempt: the splitter cuts an oversized unit at every
  \<open>max_chars\<close> code points at the latest.
\<close>

theorem chunk_document_within_max_chars:
  assumes "0 < max_chars"
    and "chunk_document (TextChunker_init (Some max_chars) ov) doc = Inr chunks"
    and "c \<in> set chunks"
  shows "int (length (ctext c)) \<le> max_chars"
proof -
  let ?self = "TextChunker_init (Some max_chars) ov"
  have cs: "chunk_size ?self = max_chars"
    using assms(1) by (simp add: TextChunker_init_def py_or_def)
  then have "0 \<le> chunk_size ?self" using assms(1) by simp
  from chunk_document_bounded [OF this assms(2)] assms(3) show ?thesis
    by (simp add: bounded_def cs)
qed

theorem chunk_document_within_max_chars_witness:
  "(0::int) < 3 \<and>
   chunk_document (TextChunker_init (Some 3) (Some 1))
     \<lparr>content = [\<lparr>b_text = Some [97, 98, 99, 100, 101], b_section = Some [49], b_page = Some 1,
                   b_slide = None, b_paragraph = None\<rparr>], doc_type = ''pdf'', raw_text = []\<rparr>
   = Inr [\<lparr>index = 0, ctext = [97, 98, 99],
           metadata = \<lparr>m_section = Some [49], m_page = Some 1, m_slide = None, m_paragraph = None,
                       m_chunk_type = Some ''page_part'', m_part = Some 1\<rparr>,
           start_offset = 0, end_offset = 3\<rparr>,
          \<lparr>index = 1, ctext = [99, 100, 101],
           metadata = \<lparr>m_section = Some [49], m_page = Some 1, m_slide = None, m_paragraph = None,
                       m_chunk_type = Some ''page_part'', m_part = Some 2\<rparr>,
           start_offset = 0, end_offset = 3\<rparr>] \<and>
   int (length [99, 100, 101 :: nat]) \<le> 3"
proof -
  let ?c1 = "\<lparr>index = 0, ctext = [97, 98, 99],
           metadata = \<lparr>m_section = Some [49], m_page = Some 1, m_slide = None, m_paragraph = None,
                       m_chunk_type = Some ''page_part'', m_part = Some 1\<rparr>,
           start_offset = 0, end_offset = 3\<rparr>"
  let ?c2 = "\<lparr>index = 1, ctext = [99, 100, 101],
           metadata = \<lparr>m_section = Some [49], m_page = Some 1, m_slide = None, m_paragraph = None,
                       m_chunk_type = Some ''page_part'', m_part = Some 2\<rparr>,
           start_offset = 0, end_offset = 3\<rparr>"
  have e: "chunk_document (TextChunker_init (Some 3) (Some 1))
     \<lparr>content = [\<lparr>b_text = Some [97, 98, 99, 100, 101], b_section = Some [49], b_page = Some 1,
                   b_slide = None, b_paragraph = None\<rparr>], doc_type = ''pdf'', raw_text = []\<rparr>
     = Inr [?c1, ?c2]"
    by (simp add: chunk_document_def chunk_pdf_content_def pdf_step_def getitem_def
        TextChunker_init_def py_or_def no_meta_def append_part_pair enumerate_eq_zip split_eval
        upt_conv_Cons)
  have p: "(0::int) < 3" by simp
  have m: "?c2 \<in> set [?c1, ?c2]" by simp
  from chunk_document_within_max_chars [OF p e m] e show ?thesis by simp
qed



text \<open>
  C4, on slide-oriented content: with \<open>max_chars = 3\<close> and \<open>overlap = 1\<close>, a first
  slide of five code points is split into two parts, which get the indices 0 and 1 (the
  length of the list so far), and the second, short slide gets the index 1, its position
  among the slides. The indices of the three chunks are 0, 1, 1.
\<close>

theorem slide_indices_not_contiguous:
  "map_sum id (map index)
     (chunk_document (TextChunker_init (Some 3) (Some 1))
        \<lparr>content = [\<lparr>b_text = Some [97, 98, 99, 100, 101], b_section = Some [49], b_page = None,
                      b_slide = Some 1, b_paragraph = None\<rparr>,
                    \<lparr>b_text = Some [97, 98], b_section = Some [50], b_page = None,
                      b_slide = Some 2, b_paragraph = None\<rparr>],
         doc_type = ''pptx'', raw_text = []\<rparr>)
   = Inr [0, 1, 1]"
  by (simp add: chunk_document_def chunk_slide_content_def slide_step_def getitem_def
      TextChunker_init_def py_or_def no_meta_def append_slide_part_pair enumerate_eq_zip
      split_eval upt_conv_Cons)

section \<open>Claims about the confidence score and the citations\<close>

text \<open>
  C2: two evidence items with score 0.8 each and the answer \<^verbatim>\<open>[1][1]\<close>, which cites
  one distinct item twice. \<open>_calculate_confidence\<close> counts both references, so its
  coverage is \<open>min(2/2, 1) = 1\<close> and the confidence is 0.92; the formula of the claim,
  with the count of distinct cited items, has coverage \<open>1/2\<close> and gives 0.72.
\<close>

theorem confidence_counts_repeated_references:
  "calculate_confidence ascii_digits
     [\<lparr>d_score = Some 0.8, d_chunk = \<lparr>chunk_id = 1, chunk_section = None, chunk_text = []\<rparr>,
       d_document = \<lparr>document_id = 1\<rparr>\<rparr>,
      \<lparr>d_score = Some 0.8, d_chunk = \<lparr>chunk_id = 2, chunk_section = None, chunk_text = []\<rparr>,
       d_document = \<lparr>document_id = 1\<rparr>\<rparr>]
     [0x5B, 0x31, 0x5D, 0x5B, 0x31, 0x5D] = 0.92 \<and>
   spec_confidence ascii_digits
     [\<lparr>d_score = Some 0.8, d_chunk = \<lparr>chunk_id = 1, chunk_section = None, chunk_text = []\<rparr>,
       d_document = \<lparr>document_id = 1\<rparr>\<rparr>,
      \<lparr>d_score = Some 0.8, d_chunk = \<lparr>chunk_id = 2, chunk_section = None, chunk_text = []\<rparr>,
       d_document = \<lparr>document_id = 1\<rparr>\<rparr>]
     [0x5B, 0x31, 0x5D, 0x5B, 0x31, 0x5D] = 0.72"
  by (simp add: calculate_confidence_def spec_confidence_def distinct_cited_count_def py_int_def
      rag_eval)

text \<open>
  C7: one evidence item and the answer \<^verbatim>\<open>[1][01]\<close>. The extractor removes duplicates
  among the matched strings, and \<^verbatim>\<open>1\<close> and \<^verbatim>\<open>01\<close> are different strings with the
  same value 1: the result holds two citations of the same chunk.
\<close>

theorem citations_repeat_for_equal_numbers:
  "extract_citations ascii_digits
     [\<lparr>d_score = Some 0.8, d_chunk = \<lparr>chunk_id = 7, chunk_section = None, chunk_text = [0x61]\<rparr>,
       d_document = \<lparr>document_id = 3\<rparr>\<rparr>]
     [0x5B, 0x31, 0x5D, 0x5B, 0x30, 0x31, 0x5D]
   = [\<lparr>cited_chunk_id = 7, cited_document_id = 3, cited_section = None, snippet = [0x61]\<rparr>,
      \<lparr>cited_chunk_id = 7, cited_document_id = 3, cited_section = None, snippet = [0x61]\<rparr>]"
  by (simp add: extract_citations_def cite_def py_int_def list_getitem_def snippet_of_def rag_eval)

text \<open>
  C9: for a non-empty evidence list the confidence is in \<open>[0, 1]\<close>. When the retrieval
  scores of the evidence are in \<open>[0, 1]\<close>, an answer with a refusal phrase that has no
  more bracketed references than an answer without one (all else equal: the same
  evidence) gets a strictly smaller confidence.
\<close>

theorem confidence_in_unit_interval_and_refusal_lowers:
  assumes "chunk_details \<noteq> []"
  shows "0 \<le> calculate_confidence dv chunk_details a \<and>
         calculate_confidence dv chunk_details a \<le> 1 \<and>
         ((\<forall>d \<in> set chunk_details. 0 \<le> get_default (d_score d) 0 \<and> get_default (d_score d) 0 \<le> 1) \<and>
          \<not> refusal_flag a \<and> refusal_flag a' \<and> cited_count dv a' \<le> cited_count dv a
          \<longrightarrow> calculate_confidence dv chunk_details a' < calculate_confidence dv chunk_details a)"
  using confidence_in_unit [of dv chunk_details a]
        confidence_refusal_less [OF assms, of a a' dv]
  by blast

theorem confidence_in_unit_interval_and_refusal_lowers_witness:
  "[\<lparr>d_score = Some 0.8, d_chunk = \<lparr>chunk_id = 1, chunk_section = None, chunk_text = []\<rparr>,
     d_document = \<lparr>document_id = 1\<rparr>\<rparr>] \<noteq> [] \<and>
   (0::real) \<le> 0.8 \<and> (0.8::real) \<le> 1 \<and>
   \<not> refusal_flag [0x5B, 0x31, 0x5D] \<and>
   refusal_flag [0x8BC1, 0x636E, 0x4E0D, 0x8DB3, 0x5B, 0x31, 0x5D] \<and>
   cited_count ascii_digits [0x8BC1, 0x636E, 0x4E0D, 0x8DB3, 0x5B, 0x31, 0x5D]
     \<le> cited_count ascii_digits [0x5B, 0x31, 0x5D] \<and>
   calculate_confidence ascii_digits
     [\<lparr>d_score = Some 0.8, d_chunk = \<lparr>chunk_id = 1, chunk_section = None, chunk_text = []\<rparr>,
       d_document = \<lparr>document_id = 1\<rparr>\<rparr>]
     [0x8BC1, 0x636E, 0x4E0D, 0x8DB3, 0x5B, 0x31, 0x5D]
   < calculate_confidence ascii_digits
     [\<lparr>d_score = Some 0.8, d_chunk = \<lparr>chunk_id = 1, chunk_section = None, chunk_text = []\<rparr>,
       d_document = \<lparr>document_id = 1\<rparr>\<rparr>]
     [0x5B, 0x31, 0x5D]"
proof -
  let ?ds = "[\<lparr>d_score = Some 0.8, d_chunk = \<lparr>chunk_id = 1, chunk_section = None, chunk_text = []\<rparr>,
     d_document = \<lparr>document_id = 1\<rparr>\<rparr>]"
  have ne: "?ds \<noteq> []" by simp
  have sc: "\<forall>d \<in> set ?ds. 0 \<le> get_default (d_score d) 0 \<and> get_default (d_score d) 0 \<le> 1"
    by (simp add: get_default_def)
  have nr: "\<not> refusal_flag [0x5B, 0x31, 0x5D]"
    by (simp add: refusal_flag_def refusal_keywords_def)
  have r: "refusal_flag [0x8BC1, 0x636E, 0x4E0D, 0x8DB3, 0x5B, 0x31, 0x5D]"
    by (simp add: refusal_flag_def refusal_keywords_def)
  have cnt: "cited_count ascii_digits [0x8BC1, 0x636E, 0x4E0D, 0x8DB3, 0x5B, 0x31, 0x5D]
     \<le> cited_count ascii_digits [0x5B, 0x31, 0x5D]"
    by (simp add: cited_count_def is_digit_def ascii_digits_def)
  from confidence_in_unit_interval_and_refusal_lowers [OF ne, of ascii_digits "[0x5B, 0x31, 0x5D]"
      "[0x8BC1, 0x636E, 0x4E0D, 0x8DB3, 0x5B, 0x31, 0x5D]"] sc nr r cnt
  have "calculate_confidence ascii_digits ?ds [0x8BC1, 0x636E, 0x4E0D, 0x8DB3, 0x5B, 0x31, 0x5D]
        < calculate_confidence ascii_digits ?ds [0x5B, 0x31, 0x5D]"
    by blast
  with ne nr r cnt show ?thesis by simp
qed

text \<open>
  C6, in streaming mode: the confidence of the answer is 0.2, below the threshold 0.45.
  \<open>_generate_answer_stream\<close> has no test of the threshold: it inserts the QA log and
  ends with the \<^verbatim>\<open>final\<close> event, which has no follow-up suggestions. On the same input
  \<open>_generate_answer\<close> leaves the table of QA logs as it was.
\<close>

theorem stream_persists_low_confidence_answer:
  "calculate_confidence ascii_digits
     [\<lparr>d_score = Some 0, d_chunk = \<lparr>chunk_id = 7, chunk_section = None, chunk_text = [0x61]\<rparr>,
       d_document = \<lparr>document_id = 3\<rparr>\<rparr>] [0x61] = 0.2 \<and>
   confidence_threshold RAGService_init = 0.45 \<and>
   generate_answer_stream RAGService_init ascii_digits [] 1 1 [0x3F] [[0x61]] None
     [\<lparr>d_score = Some 0, d_chunk = \<lparr>chunk_id = 7, chunk_section = None, chunk_text = [0x61]\<rparr>,
       d_document = \<lparr>document_id = 3\<rparr>\<rparr>]
    = ([Delta [0x61], Final 1 0.2 []],
       [\<lparr>qa_id = 1, qa_user_id = 1, qa_course_id = 1, qa_question = [0x3F], qa_answer = [0x61],
         qa_citations_json = [], qa_confidence = 0.2\<rparr>]) \<and>
   snd (generate_answer RAGService_init ascii_digits [] 1 1 [0x3F] (Inr [0x61])
     [\<lparr>d_score = Some 0, d_chunk = \<lparr>chunk_id = 7, chunk_section = None, chunk_text = [0x61]\<rparr>,
       d_document = \<lparr>document_id = 3\<rparr>\<rparr>]) = []"
  by (simp add: generate_answer_stream_def generate_answer_def calculate_confidence_def
      extract_citations_def RAGService_init_def CONFIDENCE_THRESHOLD_def rag_eval)

section \<open>Claims about the vector store adapter\<close>

text \<open>
  C8: the score of a hit is \<open>max(0, 1 - distance)\<close>. The adapter creates its collections
  without a distance setting, so the store measures the squared Euclidean distance,
  which is never negative; for every such distance the score is
  \<open>clamp(1 - distance, 0, 1)\<close> and lies in \<open>[0, 1]\<close>.
\<close>

theorem hit_score_clamped_for_distances:
  "hit_score (hit_of_row r) = max 0 (1 - row_distance r) \<and>
   (0 \<le> row_distance r \<longrightarrow>
      hit_score (hit_of_row r) = max 0 (min 1 (1 - row_distance r)) \<and>
      0 \<le> hit_score (hit_of_row r) \<and> hit_score (hit_of_row r) \<le> 1)"
  by (auto simp: hit_score_eq)

theorem hit_score_clamped_for_distances_witness:
  "(0::real) \<le> 3 / 10 \<and>
   hit_score (hit_of_row \<lparr>row_id = [0x31], row_distance = 3 / 10, row_metadata = [],
                          row_document = []\<rparr>) = 7 / 10 \<and>
   max 0 (min 1 (1 - 3 / 10)) = (7 / 10 :: real)"
  using hit_score_clamped_for_distances [of "\<lparr>row_id = [0x31], row_distance = 3 / 10,
      row_metadata = [], row_document = []\<rparr>"]
  by simp

section \<open>Claims about the ingestion task\<close>

text \<open>
  C5, when the query for the document raises: the task is queued, the document exists
  with status \<^verbatim>\<open>uploaded\<close>, and the call that loads the document raises. The handler
  marks the task failed with the message and commits; it then reads the local
  \<^verbatim>\<open>document\<close>, which was never assigned, so it ends with \<^verbatim>\<open>UnboundLocalError\<close> and
  the status of the document stays \<^verbatim>\<open>uploaded\<close>.
\<close>

theorem ingest_early_failure_leaves_document:
  "ingest_document_task (\<lambda>s. if s = QueryDocument then Some [0x65] else None)
     \<lparr>db_task = Some \<lparr>status = ''queued'', progress = 0, error_message = None\<rparr>,
      db_document = Some ''uploaded'', db_commits = []\<rparr>
   = (Uncaught UnboundLocalError,
      \<lparr>db_task = Some \<lparr>status = ''failed'', progress = 0.1, error_message = Some [0x65]\<rparr>,
       db_document = Some ''uploaded'',
       db_commits =
         [(Some \<lparr>status = ''processing'', progress = 0.1, error_message = None\<rparr>, Some ''uploaded''),
          (Some \<lparr>status = ''failed'', progress = 0.1, error_message = Some [0x65]\<rparr>,
           Some ''uploaded'')]\<rparr>)"
  by (simp add: ingest_eval)


end
